theory Spec2Isabelle
  imports Main "HOL-Library.Word"
begin

unbundle bit_operations_syntax

section \<open>The crawl task scheduler\<close>

text \<open>
  The scheduler keeps three process-wide variables: the mutex \<open>activeTasksLock\<close>, the
  map \<open>activeTasks\<close> from site identifier (a \<open>uint64\<close>) to \<open>bool\<close>, and the \<open>int32\<close>
  counter \<open>numActiveTasks\<close>. They are the fields of the record \<open>world\<close>, together with
  the wait group \<open>globalWait\<close> and a trace: the calls the code makes to its collaborators
  (queue, workers, files, upload, log) in the order it makes them. The trace is the only
  addition to the state of the source; it is what a statement about "is called once"
  or "is logged" reads.
\<close>

type_synonym site = "64 word"

datatype event =
    LogInfo string
  | LogError string
  | RemoveAllCall site
  | OpenQueueCall site
  | SpawnWorkersCall site
  | QueueJobCall site
  | GoWatch site
  | OpenFileCall site
  | FileCloseCall site
  | FileRemoveCall site
  | GoCollect site
  | CloseResults site
  | QueueCloseCall site
  | WorkersWait site
  | PollSleep site
  | StallSleep
  | SaveTaskCall site
  | PushResultCall site
  | RegisterCall site
  | UnregisterCall site

record world =
  activeTasksLock :: bool
  activeTasks :: "site \<rightharpoonup> bool"
  numActiveTasks :: "32 word"
  globalWait :: int
  trace :: "event list"

record TaskResult =
  WebsiteId :: site
  StartTimeUnix :: "64 word"
  EndTimeUnix :: "64 word"
  FileCount :: "64 word"
  ErrorCount :: "64 word"
  StatusCode :: string

text \<open>
  \<open>OD\<close> is the task runtime. \<open>TaskId\<close> is \<open>o.Task.WebsiteId\<close>. The fields the workers
  change while the task runs (\<open>InProgress\<close>, \<open>WCtx.aborted\<close>) are not stored here: what
  the lifecycle manager reads of them at each poll is an input, see \<open>env\<close>.
\<close>

record OD =
  TaskId :: site
  BaseUri :: string
  Result :: TaskResult

text \<open>
  What the collaborators answer during the run of one task: the error (if any) of each
  fallible call, the pair \<open>(InProgress, aborted)\<close> loaded at each iteration of the polling
  loop, the value the collector sends on \<open>collectErrC\<close>, and \<open>time.Now().Unix()\<close>.
\<close>

record env =
  removeAllErr :: "string option"
  openQueueErr :: "string option"
  openFileErr :: "string option"
  polls :: "(64 word \<times> 32 word) list"
  queueCloseErr :: "string option"
  collectErr :: "string option"
  pushResultErr :: "string option"
  saveTaskErr :: "string option"
  now :: "64 word"

text \<open>A call either returns or panics; deferred calls run in both cases.\<close>

datatype 'a exit = Return 'a | Panic string

definition emit :: "event \<Rightarrow> world \<Rightarrow> world" where
  "emit ev w = w\<lparr>trace := trace w @ [ev]\<rparr>"

definition atomic_AddInt32 :: "32 word \<Rightarrow> world \<Rightarrow> world" where
  "atomic_AddInt32 d w = w\<lparr>numActiveTasks := numActiveTasks w + d\<rparr>"

subsection \<open>The registry\<close>

text \<open>
  \<open>Lock\<close> on a mutex that is held blocks. In this sequential model a call that blocks
  for ever has no result: \<open>None\<close>.
\<close>

definition Lock :: "world \<Rightarrow> world option" where
  "Lock w = (if activeTasksLock w then None else Some (w\<lparr>activeTasksLock := True\<rparr>))"

definition Unlock :: "world \<Rightarrow> world" where
  "Unlock w = w\<lparr>activeTasksLock := False\<rparr>"

definition register :: "site \<Rightarrow> world \<Rightarrow> (bool \<times> world) option" where
  "register sid w =
     (case Lock (emit (RegisterCall sid) w) of
        None \<Rightarrow> None
      | Some w1 \<Rightarrow>
          (if activeTasks w1 sid \<noteq> None then Some (False, Unlock w1)
           else Some (True, Unlock (w1\<lparr>activeTasks := (activeTasks w1)(sid \<mapsto> True)\<rparr>))))"

definition unregister :: "site \<Rightarrow> world \<Rightarrow> world option" where
  "unregister sid w =
     (case Lock (emit (UnregisterCall sid) w) of
        None \<Rightarrow> None
      | Some w1 \<Rightarrow> Some (Unlock (w1\<lparr>activeTasks := (activeTasks w1)(sid := None)\<rparr>)))"

subsection \<open>The two terminal states\<close>

definition status_of :: "TaskResult \<Rightarrow> string" where
  "status_of r =
     (let fileCount = FileCount r in
      if fileCount = 0 then
        (let errorCount = ErrorCount r in
         if errorCount = 0 then ''empty'' else ''directory listing failed'')
      else ''success'')"

text \<open>
  \<open>onTaskFinished\<close>: the decrement of \<open>numActiveTasks\<close> is deferred, so it is applied
  to the state the body leaves, whether the body returns or panics.
\<close>

definition onTaskFinished_body :: "env \<Rightarrow> OD \<Rightarrow> world \<Rightarrow> unit exit \<times> OD \<times> world" where
  "onTaskFinished_body e od w =
     (let w1 = emit (QueueCloseCall (TaskId od)) w in
      case queueCloseErr e of
        Some err \<Rightarrow> (Panic err, od, w1)
      | None \<Rightarrow>
          (let w2 = emit (LogInfo ''Crawler finished'') w1;
               r1 = (Result od)\<lparr>EndTimeUnix := now e\<rparr>;
               r2 = r1\<lparr>StatusCode := status_of r1\<rparr>
           in (Return (), od\<lparr>Result := r2\<rparr>, w2)))"

definition onTaskFinished :: "env \<Rightarrow> OD \<Rightarrow> world \<Rightarrow> unit exit \<times> OD \<times> world" where
  "onTaskFinished e od w =
     (case onTaskFinished_body e od w of
        (x, od', w') \<Rightarrow> (x, od', atomic_AddInt32 (- 1) w'))"

definition onTaskPaused_body :: "env \<Rightarrow> OD \<Rightarrow> world \<Rightarrow> unit exit \<times> OD \<times> world" where
  "onTaskPaused_body e od w =
     (let w1 = emit (QueueCloseCall (TaskId od)) w in
      case queueCloseErr e of
        Some err \<Rightarrow> (Panic err, od, w1)
      | None \<Rightarrow>
          (let od1 = od\<lparr>Result := (Result od)\<lparr>EndTimeUnix := now e\<rparr>\<rparr>;
               w2 = emit (SaveTaskCall (TaskId od)) w1
           in case saveTaskErr e of
                Some err \<Rightarrow> (Return (), od1, emit (LogError ''Failed to save crawler state'') w2)
              | None \<Rightarrow> (Return (), od1, emit (LogInfo ''Crawler paused'') w2)))"

definition onTaskPaused :: "env \<Rightarrow> OD \<Rightarrow> world \<Rightarrow> unit exit \<times> OD \<times> world" where
  "onTaskPaused e od w =
     (case onTaskPaused_body e od w of
        (x, od', w') \<Rightarrow> (x, od', atomic_AddInt32 (- 1) w'))"

subsection \<open>The polling loop\<close>

text \<open>
  \<open>handleCollect\<close> starts the collector, then polls. Each iteration loads \<open>InProgress\<close>
  and then \<open>aborted\<close>; the list \<open>polls\<close> gives the two values of each iteration. The loop
  has no bound in the source: a list that ends before an iteration decides models a loop
  that is still polling, and the result is \<open>None\<close>. \<open>close(results)\<close> is deferred.
\<close>

fun poll_loop :: "env \<Rightarrow> OD \<Rightarrow> world \<Rightarrow> (64 word \<times> 32 word) list \<Rightarrow>
    (bool exit \<times> OD \<times> world) option" where
  "poll_loop e od w [] = None"
| "poll_loop e od w ((inProgress, aborted) # rest) =
     (if inProgress = 0 then
        (case onTaskFinished e od w of
           (Return u, od', w') \<Rightarrow> Some (Return True, od', w')
         | (Panic p, od', w') \<Rightarrow> Some (Panic p, od', w'))
      else if aborted \<noteq> 0 then
        (case onTaskPaused e od (emit (WorkersWait (TaskId od)) w) of
           (Return u, od', w') \<Rightarrow> Some (Return False, od', w')
         | (Panic p, od', w') \<Rightarrow> Some (Panic p, od', w'))
      else poll_loop e od (emit (PollSleep (TaskId od)) w) rest)"

definition handleCollect :: "env \<Rightarrow> OD \<Rightarrow> world \<Rightarrow> (bool exit \<times> OD \<times> world) option" where
  "handleCollect e od w =
     (case poll_loop e od (emit (GoCollect (TaskId od)) w) (polls e) of
        None \<Rightarrow> None
      | Some (x, od', w') \<Rightarrow> Some (x, od', emit (CloseResults (TaskId od)) w'))"

subsection \<open>Watch\<close>

text \<open>
  \<open>Watch\<close> defers, in this order, \<open>globalWait.Done\<close>, \<open>unregister\<close> and, once the record
  file is open, \<open>f.Close\<close> and \<open>os.Remove\<close>. Deferred calls run last-in first-out when the
  function returns and when it panics. \<open>Watch_file\<close> is the part that runs with the file
  open, \<open>Watch_body\<close> the part inside the first two deferred calls.
\<close>

definition Watch_file :: "env \<Rightarrow> OD \<Rightarrow> world \<Rightarrow> (unit exit \<times> OD \<times> world) option" where
  "Watch_file e od w =
     (case handleCollect e od w of
        None \<Rightarrow> None
      | Some (Panic p, od', w') \<Rightarrow> Some (Panic p, od', w')
      | Some (Return ok, od', w') \<Rightarrow>
          (if \<not> ok then Some (Return (), od', w')
           else case collectErr e of
                  Some err \<Rightarrow>
                    Some (Return (), od', emit (LogError ''Failed saving crawl results'') w')
                | None \<Rightarrow>
                    (let w2 = emit (PushResultCall (TaskId od)) w' in
                     case pushResultErr e of
                       Some err \<Rightarrow>
                         Some (Return (), od',
                               emit (LogError ''Failed uploading crawl results'') w2)
                     | None \<Rightarrow> Some (Return (), od', w2))))"

definition Watch_body :: "env \<Rightarrow> OD \<Rightarrow> world \<Rightarrow> (unit exit \<times> OD \<times> world) option" where
  "Watch_body e od w =
     (let w1 = emit (OpenFileCall (TaskId od)) w in
      case openFileErr e of
        Some err \<Rightarrow> Some (Return (), od, emit (LogError ''Failed saving crawl results'') w1)
      | None \<Rightarrow>
          (case Watch_file e od w1 of
             None \<Rightarrow> None
           | Some (x, od', w') \<Rightarrow>
               Some (x, od', emit (FileCloseCall (TaskId od))
                               (emit (FileRemoveCall (TaskId od)) w'))))"

definition Watch :: "env \<Rightarrow> OD \<Rightarrow> world \<Rightarrow> (unit exit \<times> OD \<times> world) option" where
  "Watch e od w =
     (case Watch_body e od w of
        None \<Rightarrow> None
      | Some (x, od', w') \<Rightarrow>
          (case unregister (TaskId od) w' of
             None \<Rightarrow> None
           | Some w'' \<Rightarrow> Some (x, od', w''\<lparr>globalWait := globalWait w'' - 1\<rparr>)))"

subsection \<open>Admission\<close>

record config =
  Workers :: int
  Tasks :: "32 word"

text \<open>
  \<open>scheduleNewTask\<close> up to and including \<open>go remote.Watch(results)\<close>. The calls that
  wipe and open the queue panic on error; nothing is deferred in this function.
\<close>

definition scheduleNewTask_start :: "env \<Rightarrow> OD \<Rightarrow> world \<Rightarrow> unit exit \<times> world" where
  "scheduleNewTask_start e od w =
     (let w1 = emit (RemoveAllCall (TaskId od)) (emit (LogInfo ''Starting crawler'') w) in
      case removeAllErr e of
        Some err \<Rightarrow> (Panic err, w1)
      | None \<Rightarrow>
          (let w2 = emit (OpenQueueCall (TaskId od)) w1 in
           case openQueueErr e of
             Some err \<Rightarrow> (Panic err, w2)
           | None \<Rightarrow>
               (let w3 = emit (SpawnWorkersCall (TaskId od)) w2;
                    w4 = atomic_AddInt32 1 w3;
                    w5 = emit (QueueJobCall (TaskId od)) w4;
                    w6 = w5\<lparr>globalWait := globalWait w5 + 1\<rparr>
                in (Return (), emit (GoWatch (TaskId od)) w6))))"

text \<open>
  The stall at the end of \<open>scheduleNewTask\<close>: while \<open>numActiveTasks\<close> is greater than
  \<open>config.Tasks\<close> (a signed comparison of two \<open>int32\<close>), sleep one second. Only running
  tasks change the counter meanwhile, by ending; each element of the list says how many
  ended during one sleep and what \<open>sleep\<close> returned (false when the context is cancelled).
  A list that ends while the counter is still too high is a stall still going on: \<open>None\<close>.
\<close>

fun stall_loop :: "config \<Rightarrow> world \<Rightarrow> (nat \<times> bool) list \<Rightarrow> world option" where
  "stall_loop cfg w obs =
     (if sint (Tasks cfg) < sint (numActiveTasks w) then
        (case obs of
           [] \<Rightarrow> None
         | (ended, ok) # rest \<Rightarrow>
             (let w1 = emit StallSleep (atomic_AddInt32 (- of_nat ended) w) in
              if \<not> ok then Some w1 else stall_loop cfg w1 rest))
      else Some w)"

definition scheduleNewTask :: "config \<Rightarrow> env \<Rightarrow> OD \<Rightarrow> world \<Rightarrow> (nat \<times> bool) list \<Rightarrow>
    (bool exit \<times> world) option" where
  "scheduleNewTask cfg e od w obs =
     (case scheduleNewTask_start e od w of
        (Panic p, w') \<Rightarrow> Some (Panic p, w')
      | (Return u, w') \<Rightarrow>
          (case stall_loop cfg w' obs of
             None \<Rightarrow> None
           | Some w'' \<Rightarrow> Some (Return True, w'')))"

text \<open>
  \<open>ScheduleTask\<close> registers the task and, when that succeeds, builds the \<open>OD\<close> and sends it
  to the scheduler. The result is the \<open>OD\<close> sent, if any.
\<close>

definition ScheduleTask :: "env \<Rightarrow> site \<Rightarrow> string \<Rightarrow> world \<Rightarrow> (OD option \<times> world) option" where
  "ScheduleTask e sid u w =
     (case register sid w of
        None \<Rightarrow> None
      | Some (ok, w') \<Rightarrow>
          (if \<not> ok then Some (None, w')
           else Some (Some \<lparr>TaskId = sid, BaseUri = u,
                            Result = \<lparr>WebsiteId = sid, StartTimeUnix = now e, EndTimeUnix = 0,
                                      FileCount = 0, ErrorCount = 0, StatusCode = []\<rparr>\<rparr>, w')))"

text \<open>
  The life of one task, in the order the program runs it: \<open>ScheduleTask\<close>, then
  \<open>scheduleNewTask\<close> on the \<open>OD\<close> received, then \<open>Watch\<close> on its own goroutine. A panic
  of \<open>scheduleNewTask\<close> is not recovered anywhere: the process ends in the state the
  panic left. The result says how the task ended, or \<open>Dropped\<close> when it was not admitted.
\<close>

datatype ending = Dropped | SetupPanic string | Watched "unit exit"

definition task_life :: "env \<Rightarrow> site \<Rightarrow> string \<Rightarrow> world \<Rightarrow> (ending \<times> world) option" where
  "task_life e sid u w =
     (case ScheduleTask e sid u w of
        None \<Rightarrow> None
      | Some (None, w1) \<Rightarrow> Some (Dropped, w1)
      | Some (Some od, w1) \<Rightarrow>
          (case scheduleNewTask_start e od w1 of
             (Panic p, w2) \<Rightarrow> Some (SetupPanic p, w2)
           | (Return u, w2) \<Rightarrow>
               (case Watch e od w2 of
                  None \<Rightarrow> None
                | Some (x, od', w3) \<Rightarrow> Some (Watched x, w3))))"



subsection \<open>Events a call may add to the trace\<close>

text \<open>
  \<open>steps A w w'\<close>: from \<open>w\<close> to \<open>w'\<close> the registry, its lock and the wait group are
  unchanged and the trace has grown by events of \<open>A\<close> only.
\<close>

definition steps :: "event set \<Rightarrow> world \<Rightarrow> world \<Rightarrow> bool" where
  "steps A w w' \<longleftrightarrow>
     activeTasksLock w' = activeTasksLock w \<and> activeTasks w' = activeTasks w \<and>
     globalWait w' = globalWait w \<and> (\<exists>evs. trace w' = trace w @ evs \<and> set evs \<subseteq> A)"

definition finish_events :: "site \<Rightarrow> event set" where
  "finish_events sid = {QueueCloseCall sid, LogInfo ''Crawler finished''}"

definition pause_events :: "site \<Rightarrow> event set" where
  "pause_events sid = {WorkersWait sid, QueueCloseCall sid, SaveTaskCall sid,
     LogError ''Failed to save crawler state'', LogInfo ''Crawler paused''}"

definition collect_events :: "site \<Rightarrow> event set" where
  "collect_events sid =
     finish_events sid \<union> pause_events sid \<union> {GoCollect sid, PollSleep sid, CloseResults sid}"

definition watch_events :: "site \<Rightarrow> event set" where
  "watch_events sid =
     collect_events sid \<union>
     {OpenFileCall sid, FileCloseCall sid, FileRemoveCall sid, PushResultCall sid,
      LogError ''Failed saving crawl results'', LogError ''Failed uploading crawl results''}"

section \<open>The collector\<close>

type_synonym byte = "8 word"

text \<open>
  A \<open>File\<close> entry. The collector reads and writes its \<open>Path\<close> and \<open>Name\<close>; the other
  fields (size, modification time, ...) are the extension of the record. The type of the
  two fields is whatever the one-result \<open>fasturl.PathUnescape\<close> that \<open>collect\<close> calls
  maps to itself.
\<close>

record 'p File =
  Path :: 'p
  Name :: 'p

text \<open>
  The record file: the bytes written so far and the number of \<open>Write\<close> calls made on it.
  \<open>wr k\<close> is what the \<open>k\<close>-th \<open>Write\<close> call does: \<open>None\<close> when it writes all its bytes,
  \<open>Some (err, n)\<close> when it fails with \<open>err\<close> after writing \<open>n\<close> of them.
\<close>

record osFile =
  content :: "byte list"
  writes :: nat

definition Write :: "(nat \<Rightarrow> (string \<times> nat) option) \<Rightarrow> byte list \<Rightarrow> osFile \<Rightarrow>
    string option \<times> osFile" where
  "Write wr b f =
     (case wr (writes f) of
        None \<Rightarrow> (None, f\<lparr>content := content f @ b, writes := Suc (writes f)\<rparr>)
      | Some (err, n) \<Rightarrow>
          (Some err, f\<lparr>content := content f @ take n b, writes := Suc (writes f)\<rparr>))"

text \<open>
  \<open>collect\<close> ranges over the results channel until it is closed: the list is what the
  channel delivers before that. \<open>decode\<close> is the function \<open>collect\<close> applies to
  \<open>Path\<close> and to \<open>Name\<close>: it is called \<open>fasturl.PathUnescape\<close> there and has one
  result. \<open>marshal\<close> is \<open>json.Marshal\<close>, whose error makes \<open>collect\<close> panic.
\<close>

fun collect :: "('p \<Rightarrow> 'p) \<Rightarrow> (('p, 'z) File_scheme \<Rightarrow> byte list option) \<Rightarrow>
    (nat \<Rightarrow> (string \<times> nat) option) \<Rightarrow> ('p, 'z) File_scheme list \<Rightarrow> osFile \<Rightarrow>
    string option exit \<times> osFile" where
  "collect decode marshal wr [] f = (Return None, f)"
| "collect decode marshal wr (result # rest) f =
     (let result1 = result\<lparr>Path := decode (Path result)\<rparr>;
          result2 = result1\<lparr>Name := decode (Name result1)\<rparr>
      in case marshal result2 of
           None \<Rightarrow> (Panic ''json: error'', f)
         | Some resJson \<Rightarrow>
             (case Write wr resJson f of
                (Some err, f1) \<Rightarrow> (Return (Some err), f1)
              | (None, f1) \<Rightarrow>
                  (case Write wr [0x0A] f1 of
                     (Some err, f2) \<Rightarrow> (Return (Some err), f2)
                   | (None, f2) \<Rightarrow> collect decode marshal wr rest f2)))"

text \<open>
  \<open>Collect\<close> logs the error of \<open>collect\<close>, if any, and sends it on \<open>errC\<close>: the value
  returned here is the value sent.
\<close>

definition Collect :: "('p \<Rightarrow> 'p) \<Rightarrow> (('p, 'z) File_scheme \<Rightarrow> byte list option) \<Rightarrow>
    (nat \<Rightarrow> (string \<times> nat) option) \<Rightarrow> ('p, 'z) File_scheme list \<Rightarrow> osFile \<Rightarrow> world \<Rightarrow>
    string option exit \<times> osFile \<times> world" where
  "Collect decode marshal wr results f w =
     (case collect decode marshal wr results f of
        (Panic p, f') \<Rightarrow> (Panic p, f', w)
      | (Return err, f') \<Rightarrow>
          (Return err, f',
           if err \<noteq> None then emit (LogError ''Failed saving crawl results'') w else w))"

section \<open>Percent-encoding (package fasturl)\<close>

text \<open>
  A rune is an \<open>int32\<close>; it is modelled by its value, an integer. \<open>byte_of\<close> is the
  conversion \<open>byte(c)\<close>, which keeps the low eight bits, and \<open>rune_of\<close> is \<open>rune(b)\<close>.
  Character literals are written as their code points: \<open>0x25\<close> is the percent sign,
  \<open>0x2B\<close> the plus sign, \<open>0x20\<close> the space.
\<close>

type_synonym rune = int

definition byte_of :: "rune \<Rightarrow> byte" where
  "byte_of c = word_of_int c"

definition rune_of :: "byte \<Rightarrow> rune" where
  "rune_of b = uint b"

definition ishex :: "byte \<Rightarrow> bool" where
  "ishex c =
     (if 0x30 \<le> c \<and> c \<le> 0x39 then True
      else if 0x61 \<le> c \<and> c \<le> 0x66 then True
      else if 0x41 \<le> c \<and> c \<le> 0x46 then True
      else False)"

definition unhex :: "byte \<Rightarrow> byte" where
  "unhex c =
     (if 0x30 \<le> c \<and> c \<le> 0x39 then c - 0x30
      else if 0x61 \<le> c \<and> c \<le> 0x66 then c - 0x61 + 10
      else if 0x41 \<le> c \<and> c \<le> 0x46 then c - 0x41 + 10
      else 0)"

datatype encoding =
    encodePath
  | encodePathSegment
  | encodeHost
  | encodeZone
  | encodeUserPassword
  | encodeQueryComponent
  | encodeFragment

text \<open>
  The two error types of the package, and the run-time panic of an index out of range.
  An \<open>EscapeError\<close> or \<open>InvalidHostError\<close> carries the runes it was built from.
\<close>

datatype failure = EscapeError "rune list" | InvalidHostError "rune list" | RuntimePanic

text \<open>
  \<open>shouldEscape\<close>. In the case of the reserved characters the inner switch returns for
  five modes; for \<open>encodeHost\<close> and \<open>encodeZone\<close> control leaves both switches, the test
  for \<open>encodeFragment\<close> fails and the function returns true.
\<close>

definition shouldEscape :: "rune \<Rightarrow> encoding \<Rightarrow> bool" where
  "shouldEscape c mode =
     (if (0x41 \<le> c \<and> c \<le> 0x5A) \<or> (0x61 \<le> c \<and> c \<le> 0x7A) \<or> (0x30 \<le> c \<and> c \<le> 0x39)
      then False
      else if (mode = encodeHost \<or> mode = encodeZone) \<and>
              c \<in> set [0x21, 0x24, 0x26, 0x27, 0x28, 0x29, 0x2A, 0x2B, 0x2C, 0x3B, 0x3D, 0x3A,
                       0x5B, 0x5D, 0x3C, 0x3E, 0x22]
      then False
      else if c \<in> set [0x2D, 0x5F, 0x2E, 0x7E] then False
      else if c \<in> set [0x24, 0x26, 0x2B, 0x2C, 0x2F, 0x3A, 0x3B, 0x3D, 0x3F, 0x40] then
        (case mode of
           encodePath \<Rightarrow> c = 0x3F
         | encodePathSegment \<Rightarrow> c = 0x2F \<or> c = 0x3B \<or> c = 0x2C \<or> c = 0x3F
         | encodeUserPassword \<Rightarrow> c = 0x40 \<or> c = 0x2F \<or> c = 0x3F \<or> c = 0x3A
         | encodeQueryComponent \<Rightarrow> True
         | encodeFragment \<Rightarrow> False
         | _ \<Rightarrow> True)
      else if mode = encodeFragment \<and> c \<in> set [0x21, 0x28, 0x29, 0x2A] then False
      else True)"

subsection \<open>Strings of bytes read as runes\<close>

text \<open>
  \<open>[]rune(string(t))\<close> reads the bytes \<open>t\<close> as UTF-8. \<open>utf8_first\<close> gives, for the first
  byte of a sequence of more than one byte, the length of the sequence and the range
  the second byte must lie in; every later byte must lie in \<open>0x80..0xBF\<close>. A byte that
  starts no well-formed sequence yields the rune \<open>0xFFFD\<close> and is skipped alone.
\<close>

definition utf8_first :: "byte \<Rightarrow> (nat \<times> byte \<times> byte) option" where
  "utf8_first b =
     (if 0xC2 \<le> b \<and> b \<le> 0xDF then Some (2, 0x80, 0xBF)
      else if b = 0xE0 then Some (3, 0xA0, 0xBF)
      else if b = 0xED then Some (3, 0x80, 0x9F)
      else if 0xE1 \<le> b \<and> b \<le> 0xEF then Some (3, 0x80, 0xBF)
      else if b = 0xF0 then Some (4, 0x90, 0xBF)
      else if 0xF1 \<le> b \<and> b \<le> 0xF3 then Some (4, 0x80, 0xBF)
      else if b = 0xF4 then Some (4, 0x80, 0x8F)
      else None)"

definition utf8_value :: "nat \<Rightarrow> byte \<Rightarrow> byte list \<Rightarrow> rune" where
  "utf8_value n b0 tail =
     foldl (\<lambda>acc b. acc * 64 + uint (b AND 0x3F))
       (uint (b0 AND (if n = 2 then 0x1F else if n = 3 then 0x0F else 0x07))) tail"

fun runes_of_bytes :: "byte list \<Rightarrow> rune list" where
  "runes_of_bytes [] = []"
| "runes_of_bytes (b0 # bs) =
     (if b0 < 0x80 then uint b0 # runes_of_bytes bs
      else case utf8_first b0 of
             None \<Rightarrow> 0xFFFD # runes_of_bytes bs
           | Some (n, lo, hi) \<Rightarrow>
               (let tail = take (n - 1) bs in
                if length tail = n - 1 \<and> lo \<le> hd tail \<and> hd tail \<le> hi \<and>
                   (\<forall>b\<in>set (tl tail). 0x80 \<le> b \<and> b \<le> 0xBF)
                then utf8_value n b0 tail # runes_of_bytes (drop (n - 1) bs)
                else 0xFFFD # runes_of_bytes bs))"

subsection \<open>unescape\<close>

text \<open>
  The first loop of \<open>unescape\<close>, from index \<open>i\<close> with the counter \<open>n\<close> and the flag
  \<open>hasPlus\<close>: it returns the error of the first ill-formed place, or \<open>n\<close> and \<open>hasPlus\<close>.
  \<open>runes_Equals\<close> is \<open>runes.Equals\<close>, of a package that is not among the sources; it is
  called in the modes \<open>encodeHost\<close> and \<open>encodeZone\<close> only. The slice \<open>s[i:i+3]\<close> is
  \<open>take 3 (drop i s)\<close>, and so is \<open>s[i:]\<close> cut to three runes.
\<close>

function unescape_check :: "(rune list \<Rightarrow> rune list \<Rightarrow> bool) \<Rightarrow> rune list \<Rightarrow> encoding \<Rightarrow>
    nat \<Rightarrow> nat \<Rightarrow> bool \<Rightarrow> failure + nat \<times> bool" where
  "unescape_check runes_Equals s mode i n hasPlus =
     (if i < length s then
        (if s ! i = 0x25 then
           (if length s \<le> i + 2 \<or> \<not> ishex (byte_of (s ! (i + 1))) \<or>
               \<not> ishex (byte_of (s ! (i + 2)))
            then Inl (EscapeError (take 3 (drop i s)))
            else if mode = encodeHost \<and> unhex (byte_of (s ! (i + 1))) < 8 \<and>
                    \<not> runes_Equals (take 3 (drop i s)) [0x25, 0x32, 0x35]
            then Inl (EscapeError (take 3 (drop i s)))
            else if mode = encodeZone \<and>
                    (let v = push_bit 4 (unhex (byte_of (s ! (i + 1)))) OR
                             unhex (byte_of (s ! (i + 2)))
                     in \<not> runes_Equals (take 3 (drop i s)) [0x25, 0x32, 0x35] \<and> v \<noteq> 0x20 \<and>
                        shouldEscape (rune_of v) encodeHost)
            then Inl (EscapeError (take 3 (drop i s)))
            else unescape_check runes_Equals s mode (i + 3) (n + 1) hasPlus)
         else if s ! i = 0x2B then
           unescape_check runes_Equals s mode (i + 1) n (mode = encodeQueryComponent)
         else if (mode = encodeHost \<or> mode = encodeZone) \<and> s ! i < 0x80 \<and>
                 shouldEscape (s ! i) mode
         then Inl (InvalidHostError [s ! i])
         else unescape_check runes_Equals s mode (i + 1) n hasPlus)
      else Inr (n, hasPlus))"
  by pat_completeness auto

termination
  by (relation "measure (\<lambda>(eq, s, mode, i, n, hasPlus). length s - i)") auto

text \<open>
  The second loop of \<open>unescape\<close>: it fills the buffer \<open>t\<close> from index \<open>j\<close> while it reads
  \<open>s\<close> from index \<open>i\<close>. A read or a write out of range is a panic.
\<close>

function unescape_fill :: "rune list \<Rightarrow> encoding \<Rightarrow> byte list \<Rightarrow> nat \<Rightarrow> nat \<Rightarrow>
    failure + byte list" where
  "unescape_fill s mode t i j =
     (if i < length s then
        (if s ! i = 0x25 then
           (if i + 2 < length s \<and> j < length t then
              unescape_fill s mode
                (t[j := push_bit 4 (unhex (byte_of (s ! (i + 1)))) OR
                        unhex (byte_of (s ! (i + 2)))])
                (i + 3) (j + 1)
            else Inl RuntimePanic)
         else if s ! i = 0x2B then
           (if j < length t then
              unescape_fill s mode
                (t[j := (if mode = encodeQueryComponent then 0x20 else 0x2B)]) (i + 1) (j + 1)
            else Inl RuntimePanic)
         else
           (if j < length t then unescape_fill s mode (t[j := byte_of (s ! i)]) (i + 1) (j + 1)
            else Inl RuntimePanic))
      else Inr t)"
  by pat_completeness auto

termination
  by (relation "measure (\<lambda>(s, mode, t, i, j). length s - i)") auto

text \<open>
  The equation of each loop rewrites its own right-hand side again, so both are taken
  out of the simplifier and unfolded one step at a time.
\<close>

declare unescape_check.simps [simp del] unescape_fill.simps [simp del]

text \<open>
  \<open>unescape\<close>. \<open>make([]byte, len(s)-2*n)\<close> panics when the length is negative.
\<close>

definition unescape :: "(rune list \<Rightarrow> rune list \<Rightarrow> bool) \<Rightarrow> rune list \<Rightarrow> encoding \<Rightarrow>
    failure + rune list" where
  "unescape runes_Equals s mode =
     (case unescape_check runes_Equals s mode 0 0 False of
        Inl err \<Rightarrow> Inl err
      | Inr (n, hasPlus) \<Rightarrow>
          (if n = 0 \<and> \<not> hasPlus then Inr s
           else if length s < 2 * n then Inl RuntimePanic
           else case unescape_fill s mode (replicate (length s - 2 * n) 0) 0 0 of
                  Inl err \<Rightarrow> Inl err
                | Inr t \<Rightarrow> Inr (runes_of_bytes t)))"

definition QueryUnescape :: "(rune list \<Rightarrow> rune list \<Rightarrow> bool) \<Rightarrow> rune list \<Rightarrow> failure + rune list" where
  "QueryUnescape runes_Equals s = unescape runes_Equals s encodeQueryComponent"

definition PathUnescape :: "(rune list \<Rightarrow> rune list \<Rightarrow> bool) \<Rightarrow> rune list \<Rightarrow> failure + rune list" where
  "PathUnescape runes_Equals s = unescape runes_Equals s encodePathSegment"

subsection \<open>escape\<close>

text \<open>
  The first loop of \<open>escape\<close> counts; the second fills the buffer \<open>t\<close> from index \<open>j\<close>.
  Both visit the runes of \<open>s\<close> in order. \<open>hex_at k\<close> is \<open>"0123456789ABCDEF"[k]\<close>, a panic
  when \<open>k\<close> is out of range; \<open>c>>4\<close> is the arithmetic shift of an \<open>int32\<close>.
\<close>

fun escape_count :: "rune list \<Rightarrow> encoding \<Rightarrow> nat \<Rightarrow> nat \<Rightarrow> nat \<times> nat" where
  "escape_count [] mode spaceCount hexCount = (spaceCount, hexCount)"
| "escape_count (c # cs) mode spaceCount hexCount =
     (if shouldEscape c mode then
        (if c = 0x20 \<and> mode = encodeQueryComponent
         then escape_count cs mode (spaceCount + 1) hexCount
         else escape_count cs mode spaceCount (hexCount + 1))
      else escape_count cs mode spaceCount hexCount)"

definition hex_at :: "int \<Rightarrow> byte option" where
  "hex_at k =
     (if 0 \<le> k \<and> k < 16
      then Some ([0x30, 0x31, 0x32, 0x33, 0x34, 0x35, 0x36, 0x37, 0x38, 0x39,
                  0x41, 0x42, 0x43, 0x44, 0x45, 0x46] ! nat k)
      else None)"

fun escape_fill :: "rune list \<Rightarrow> encoding \<Rightarrow> byte list \<Rightarrow> nat \<Rightarrow> failure + byte list" where
  "escape_fill [] mode t j = Inr t"
| "escape_fill (c # cs) mode t j =
     (if c = 0x20 \<and> mode = encodeQueryComponent then
        (if j < length t then escape_fill cs mode (t[j := 0x2B]) (j + 1) else Inl RuntimePanic)
      else if shouldEscape c mode then
        (case (hex_at (drop_bit 4 c), hex_at (c AND 15)) of
           (Some hi, Some lo) \<Rightarrow>
             (if j + 2 < length t
              then escape_fill cs mode (t[j := 0x25, j + 1 := hi, j + 2 := lo]) (j + 3)
              else Inl RuntimePanic)
         | _ \<Rightarrow> Inl RuntimePanic)
      else
        (if j < length t then escape_fill cs mode (t[j := byte_of c]) (j + 1)
         else Inl RuntimePanic))"

definition escape :: "rune list \<Rightarrow> encoding \<Rightarrow> failure + rune list" where
  "escape s mode =
     (case escape_count s mode 0 0 of
        (spaceCount, hexCount) \<Rightarrow>
          (if spaceCount = 0 \<and> hexCount = 0 then Inr s
           else case escape_fill s mode (replicate (length s + 2 * hexCount) 0) 0 of
                  Inl err \<Rightarrow> Inl err
                | Inr t \<Rightarrow> Inr (runes_of_bytes t)))"

definition QueryEscape :: "rune list \<Rightarrow> failure + rune list" where
  "QueryEscape s = escape s encodeQueryComponent"

definition PathEscape :: "rune list \<Rightarrow> failure + rune list" where
  "PathEscape s = escape s encodePathSegment"

subsection \<open>Decoding and encoding by recursion on the input\<close>

text \<open>
  Percent-decoding as the specification words it, by recursion on the input. \<open>pct_scan\<close>
  finds the first percent sign that is not followed by two hexadecimal digits (\<open>hx\<close> is
  the test for a digit) and returns it with the runes that follow it, at most two; when
  there is none it returns the number of \<open>%XX\<close> triples. \<open>pct_decode\<close> replaces each triple
  by the byte \<open>XX\<close>; a plus sign becomes a space in query mode; every other rune is kept,
  as a byte.
\<close>

fun pct_scan :: "(rune \<Rightarrow> bool) \<Rightarrow> rune list \<Rightarrow> rune list + nat" where
  "pct_scan hx [] = Inr 0"
| "pct_scan hx (c # cs) =
     (if c = 0x25 then
        (case cs of
           h1 # h2 # rest \<Rightarrow>
             (if hx h1 \<and> hx h2
              then (case pct_scan hx rest of Inl bad \<Rightarrow> Inl bad | Inr k \<Rightarrow> Inr (Suc k))
              else Inl [c, h1, h2])
         | _ \<Rightarrow> Inl (c # cs))
      else pct_scan hx cs)"

fun pct_decode :: "encoding \<Rightarrow> rune list \<Rightarrow> byte list" where
  "pct_decode mode [] = []"
| "pct_decode mode (c # cs) =
     (if c = 0x25 then
        (case cs of
           h1 # h2 # rest \<Rightarrow>
             (push_bit 4 (unhex (byte_of h1)) OR unhex (byte_of h2)) # pct_decode mode rest
         | _ \<Rightarrow> [])
      else if c = 0x2B then
        (if mode = encodeQueryComponent then 0x20 else 0x2B) # pct_decode mode cs
      else byte_of c # pct_decode mode cs)"

definition hexdigit :: "rune \<Rightarrow> bool" where
  "hexdigit c \<longleftrightarrow> (0x30 \<le> c \<and> c \<le> 0x39) \<or> (0x41 \<le> c \<and> c \<le> 0x46) \<or> (0x61 \<le> c \<and> c \<le> 0x66)"

text \<open>
  The value of a hexadecimal digit, read off the rune: the byte that a triple \<open>%XY\<close>
  stands for is \<open>16 * hexval X + hexval Y\<close>.
\<close>

definition hexval :: "rune \<Rightarrow> int" where
  "hexval c =
     (if 0x30 \<le> c \<and> c \<le> 0x39 then c - 0x30
      else if 0x41 \<le> c \<and> c \<le> 0x46 then c - 0x41 + 10
      else if 0x61 \<le> c \<and> c \<le> 0x66 then c - 0x61 + 10
      else 0)"

text \<open>
  What \<open>escape\<close> writes, rune by rune: a plus sign for a space in query mode, a percent
  sign and two digits for a rune that must be escaped, the rune itself otherwise.
\<close>

fun esc_bytes :: "encoding \<Rightarrow> rune list \<Rightarrow> byte list" where
  "esc_bytes mode [] = []"
| "esc_bytes mode (c # cs) =
     (if c = 0x20 \<and> mode = encodeQueryComponent then [0x2B]
      else if shouldEscape c mode then
        (case (hex_at (drop_bit 4 c), hex_at (c AND 15)) of
           (Some hi, Some lo) \<Rightarrow> [0x25, hi, lo]
         | _ \<Rightarrow> [])
      else [byte_of c]) @ esc_bytes mode cs"

section \<open>Example inputs\<close>

text \<open>Concrete states, answers of the collaborators and inputs, used to instantiate the theorems.\<close>

definition world0 :: world where
  "world0 = \<lparr>activeTasksLock = False, activeTasks = Map.empty, numActiveTasks = 0,
             globalWait = 0, trace = []\<rparr>"

definition env_ok :: env where
  "env_ok = \<lparr>removeAllErr = None, openQueueErr = None, openFileErr = None,
             polls = [(2, 0), (0, 1)], queueCloseErr = None, collectErr = None,
             pushResultErr = None, saveTaskErr = None, now = 1700000000\<rparr>"

definition od_a :: OD where
  "od_a = \<lparr>TaskId = 7, BaseUri = ''http://a/'',
           Result = \<lparr>WebsiteId = 7, StartTimeUnix = 1600000000, EndTimeUnix = 0,
                     FileCount = 3, ErrorCount = 1, StatusCode = []\<rparr>\<rparr>"

definition env_save_fails :: env where
  "env_save_fails = env_ok\<lparr>polls := [(2, 1)], saveTaskErr := Some ''connection refused''\<rparr>"

definition env_close_panics :: env where
  "env_close_panics = env_ok\<lparr>queueCloseErr := Some ''queue: corrupt''\<rparr>"

definition env_wipe_fails :: env where
  "env_wipe_fails = env_ok\<lparr>removeAllErr := Some ''unlinkat queue/7: permission denied''\<rparr>"



definition env_open_fails :: env where
  "env_open_fails = env_ok\<lparr>openQueueErr := Some ''open queue/7: no space left on device''\<rparr>"

definition env_upload_fails :: env where
  "env_upload_fails = env_ok\<lparr>pushResultErr := Some ''503 Service Unavailable''\<rparr>"

definition world_running :: world where
  "world_running = world0\<lparr>activeTasks := [7 \<mapsto> True], numActiveTasks := 1, globalWait := 1\<rparr>"

definition cfg1 :: config where
  "cfg1 = \<lparr>Workers = 4, Tasks = 1\<rparr>"

definition od_b :: OD where
  "od_b = \<lparr>TaskId = 8, BaseUri = ''http://b/'',
           Result = \<lparr>WebsiteId = 8, StartTimeUnix = 1600000000, EndTimeUnix = 0,
                     FileCount = 0, ErrorCount = 0, StatusCode = []\<rparr>\<rparr>"

definition world_one :: world where
  "world_one = world0\<lparr>numActiveTasks := 1, globalWait := 1,
     trace := [LogInfo ''Starting crawler'', RemoveAllCall 7, OpenQueueCall 7,
               SpawnWorkersCall 7, QueueJobCall 7, GoWatch 7]\<rparr>"

definition world_two :: world where
  "world_two = world0\<lparr>numActiveTasks := 2, globalWait := 2,
     trace := [LogInfo ''Starting crawler'', RemoveAllCall 7, OpenQueueCall 7,
               SpawnWorkersCall 7, QueueJobCall 7, GoWatch 7,
               LogInfo ''Starting crawler'', RemoveAllCall 8, OpenQueueCall 8,
               SpawnWorkersCall 8, QueueJobCall 8, GoWatch 8]\<rparr>"

definition unescape_ex :: "string \<Rightarrow> string" where
  "unescape_ex s = (if s = ''a%20b'' then ''a b'' else s)"

definition marshal_ex :: "string File \<Rightarrow> byte list option" where
  "marshal_ex r = Some (map of_char (Path r @ '':'' @ Name r))"

definition files_ex :: "string File list" where
  "files_ex = [\<lparr>Path = ''a%20b'', Name = ''x''\<rparr>, \<lparr>Path = ''c'', Name = ''y''\<rparr>]"

definition wr_third_fails :: "nat \<Rightarrow> (string \<times> nat) option" where
  "wr_third_fails k = (if k = 2 then Some (''no space left on device'', 1) else None)"

section \<open>The registry\<close>

lemma register_free:
  "\<not> activeTasksLock w \<Longrightarrow>
   register sid w =
     Some (activeTasks w sid = None,
           w\<lparr>activeTasks := (if activeTasks w sid = None then (activeTasks w)(sid \<mapsto> True)
                              else activeTasks w),
             trace := trace w @ [RegisterCall sid]\<rparr>)"
  by (cases w) (simp add: register_def Lock_def Unlock_def emit_def)


lemma unregister_free:
  "\<not> activeTasksLock w \<Longrightarrow>
   unregister sid w =
     Some (w\<lparr>activeTasks := (activeTasks w)(sid := None),
             trace := trace w @ [UnregisterCall sid]\<rparr>)"
  by (cases w) (simp add: unregister_def Lock_def Unlock_def emit_def)

lemma unregister_held: "activeTasksLock w \<Longrightarrow> unregister sid w = None"
  by (simp add: unregister_def Lock_def emit_def)







section \<open>Status classification\<close>

text \<open>
  C2. When \<open>onTaskFinished\<close> returns, the status code it has stored is \<open>success\<close> if the
  file count is positive, whatever the error count; \<open>empty\<close> if both counts are zero; and
  \<open>directory listing failed\<close> if the file count is zero and the error count is positive.
  It returns whenever closing the queue succeeds.
\<close>

theorem onTaskFinished_status:
  assumes "queueCloseErr e = None"
  shows "\<exists>od' w'. onTaskFinished e od w = (Return (), od', w') \<and>
           (0 < FileCount (Result od) \<longrightarrow> StatusCode (Result od') = ''success'') \<and>
           (FileCount (Result od) = 0 \<and> ErrorCount (Result od) = 0 \<longrightarrow>
              StatusCode (Result od') = ''empty'') \<and>
           (FileCount (Result od) = 0 \<and> 0 < ErrorCount (Result od) \<longrightarrow>
              StatusCode (Result od') = ''directory listing failed'')"
  using assms
  by (auto simp: onTaskFinished_def onTaskFinished_body_def status_of_def Let_def word_greater_zero_iff)

theorem onTaskFinished_status_witness:
  "queueCloseErr env_ok = None \<and>
   onTaskFinished env_ok od_a world0 =
     (Return (),
      od_a\<lparr>Result := (Result od_a)\<lparr>EndTimeUnix := 1700000000, StatusCode := ''success''\<rparr>\<rparr>,
      world0\<lparr>numActiveTasks := - 1,
             trace := [QueueCloseCall 7, LogInfo ''Crawler finished'']\<rparr>)"
proof -
  have h: "queueCloseErr env_ok = None" by (simp add: env_ok_def)
  from onTaskFinished_status [OF h, of od_a world0]
  obtain od' w' where r: "onTaskFinished env_ok od_a world0 = (Return (), od', w')"
    and s: "0 < FileCount (Result od_a) \<longrightarrow> StatusCode (Result od') = ''success''"
    by blast
  have "0 < FileCount (Result od_a)" by (simp add: od_a_def)
  with s have "StatusCode (Result od') = ''success''" by simp
  moreover have "od' = od_a\<lparr>Result := (Result od_a)\<lparr>EndTimeUnix := 1700000000, StatusCode := StatusCode (Result od')\<rparr>\<rparr>"
    and "w' = world0\<lparr>numActiveTasks := - 1, trace := [QueueCloseCall 7, LogInfo ''Crawler finished'']\<rparr>"
    using r
    by (auto simp: onTaskFinished_def onTaskFinished_body_def Let_def env_ok_def od_a_def
        world0_def emit_def atomic_AddInt32_def)
  ultimately show ?thesis using h r by simp
qed

section \<open>Persisting a paused task\<close>

text \<open>
  C8. When closing the queue succeeds and \<open>SaveTask\<close> returns an error, \<open>onTaskPaused\<close>
  returns (it does not panic); it has called \<open>SaveTask\<close> once, logged the failure, stamped
  the end time and, by its deferred call, decremented \<open>numActiveTasks\<close>.
\<close>

theorem onTaskPaused_save_fails:
  assumes "queueCloseErr e = None" and "saveTaskErr e = Some err"
  shows "onTaskPaused e od w =
           (Return (),
            od\<lparr>Result := (Result od)\<lparr>EndTimeUnix := now e\<rparr>\<rparr>,
            w\<lparr>numActiveTasks := numActiveTasks w - 1,
              trace := trace w @ [QueueCloseCall (TaskId od), SaveTaskCall (TaskId od),
                                  LogError ''Failed to save crawler state'']\<rparr>)"
  using assms
  by (simp add: onTaskPaused_def onTaskPaused_body_def Let_def emit_def atomic_AddInt32_def)

theorem onTaskPaused_save_fails_witness:
  "queueCloseErr env_save_fails = None \<and>
   saveTaskErr env_save_fails = Some ''connection refused'' \<and>
   onTaskPaused env_save_fails od_a (world0\<lparr>numActiveTasks := 1\<rparr>) =
     (Return (),
      od_a\<lparr>Result := (Result od_a)\<lparr>EndTimeUnix := 1700000000\<rparr>\<rparr>,
      world0\<lparr>numActiveTasks := 0,
             trace := [QueueCloseCall 7, SaveTaskCall 7,
                       LogError ''Failed to save crawler state'']\<rparr>)"
proof -
  have h1: "queueCloseErr env_save_fails = None"
    and h2: "saveTaskErr env_save_fails = Some ''connection refused''"
    by (simp_all add: env_save_fails_def env_ok_def)
  from onTaskPaused_save_fails [OF h1 h2, of od_a "world0\<lparr>numActiveTasks := 1\<rparr>"] h1 h2
  show ?thesis
    by (simp add: env_save_fails_def env_ok_def od_a_def world0_def)
qed

section \<open>The order of the two polls\<close>

lemma poll_loop_skip:
  "\<forall>p\<in>set pre. fst p \<noteq> 0 \<and> snd p = 0 \<Longrightarrow>
   poll_loop e od w (pre @ rest) =
     poll_loop e od (w\<lparr>trace := trace w @ replicate (length pre) (PollSleep (TaskId od))\<rparr>) rest"
proof (induction pre arbitrary: w)
  case Nil
  then show ?case by simp
next
  case (Cons p pre)
  obtain ip ab where p: "p = (ip, ab)" by (cases p)
  from Cons.prems p have "ip \<noteq> 0" "ab = 0" "\<forall>p\<in>set pre. fst p \<noteq> 0 \<and> snd p = 0" by auto
  with Cons.IH [of "emit (PollSleep (TaskId od)) w"] show ?case
    by (simp add: p emit_def replicate_app_Cons_same)
qed

text \<open>
  C7. Each iteration tests \<open>InProgress = 0\<close> before it tests the abort flag. So at the
  first poll that finds \<open>InProgress = 0\<close> (no earlier poll having decided),
  \<open>handleCollect\<close> runs \<open>onTaskFinished\<close> and, unless closing the queue panics, returns
  true, whatever the abort flag is at that poll.
\<close>

theorem handleCollect_finish_first:
  assumes "polls e = pre @ (0, aborted) # rest"
    and "\<forall>p\<in>set pre. fst p \<noteq> 0 \<and> snd p = 0"
  shows "handleCollect e od w =
           (case onTaskFinished e od
                   (w\<lparr>trace := trace w @ GoCollect (TaskId od) #
                                 replicate (length pre) (PollSleep (TaskId od))\<rparr>) of
              (Return u, od', w') \<Rightarrow> Some (Return True, od', emit (CloseResults (TaskId od)) w')
            | (Panic p, od', w') \<Rightarrow> Some (Panic p, od', emit (CloseResults (TaskId od)) w'))"
  using assms
  by (simp add: handleCollect_def poll_loop_skip emit_def split: prod.splits exit.splits)

theorem handleCollect_finish_first_witness:
  "polls env_ok = [(2, 0)] @ (0, 1) # [] \<and>
   handleCollect env_ok od_a (world0\<lparr>numActiveTasks := 1\<rparr>) =
     Some (Return True,
           od_a\<lparr>Result := (Result od_a)\<lparr>EndTimeUnix := 1700000000, StatusCode := ''success''\<rparr>\<rparr>,
           world0\<lparr>numActiveTasks := 0,
                  trace := [GoCollect 7, PollSleep 7, QueueCloseCall 7,
                            LogInfo ''Crawler finished'', CloseResults 7]\<rparr>)"
proof -
  have h1: "polls env_ok = [(2, 0)] @ (0, 1) # []" by (simp add: env_ok_def)
  have h2: "\<forall>p\<in>set [(2 :: 64 word, 0 :: 32 word)]. fst p \<noteq> 0 \<and> snd p = 0" by simp
  from handleCollect_finish_first [OF h1 h2, of od_a "world0\<lparr>numActiveTasks := 1\<rparr>"] h1
  show ?thesis
    by (simp add: onTaskFinished_def onTaskFinished_body_def Let_def env_ok_def od_a_def
        world0_def emit_def atomic_AddInt32_def status_of_def)
qed

section \<open>What a task adds to the trace\<close>

lemma steps_refl: "steps A w w"
  by (simp add: steps_def)

lemma steps_trans: "steps A w w1 \<Longrightarrow> steps A w1 w2 \<Longrightarrow> steps A w w2"
  by (auto simp: steps_def)

lemma steps_mono: "steps A w w' \<Longrightarrow> A \<subseteq> B \<Longrightarrow> steps B w w'"
  by (auto simp: steps_def)

lemma steps_emit: "ev \<in> A \<Longrightarrow> steps A w (emit ev w)"
  by (simp add: steps_def emit_def)

lemma steps_add: "steps A w (atomic_AddInt32 d w)"
  by (simp add: steps_def atomic_AddInt32_def)

lemma steps_count: "steps A w w' \<Longrightarrow> x \<notin> A \<Longrightarrow> count_list (trace w') x = count_list (trace w) x"
  by (auto simp: steps_def count_list_0_iff)

lemma onTaskFinished_steps:
  "onTaskFinished e od w = (x, od', w') \<Longrightarrow> steps (finish_events (TaskId od)) w w'"
  by (auto simp: onTaskFinished_def onTaskFinished_body_def Let_def steps_def emit_def
      atomic_AddInt32_def finish_events_def split: option.splits)

lemma onTaskPaused_steps:
  "onTaskPaused e od w = (x, od', w') \<Longrightarrow> steps (pause_events (TaskId od)) w w'"
  by (auto simp: onTaskPaused_def onTaskPaused_body_def Let_def steps_def emit_def
      atomic_AddInt32_def pause_events_def split: option.splits)

lemma poll_loop_steps:
  "poll_loop e od w ps = Some (x, od', w') \<Longrightarrow> steps (collect_events (TaskId od)) w w'"
proof (induction ps arbitrary: w)
  case Nil
  then show ?case by simp
next
  case (Cons p ps)
  obtain ip ab where p: "p = (ip, ab)" by (cases p)
  show ?case
  proof (cases "ip = 0")
    case True
    obtain y od1 w1 where f: "onTaskFinished e od w = (y, od1, w1)"
      by (cases "onTaskFinished e od w")
    with Cons.prems p True have "w' = w1" by (cases y) auto
    with onTaskFinished_steps [OF f] show ?thesis
      by (auto elim: steps_mono simp: collect_events_def)
  next
    case False
    show ?thesis
    proof (cases "ab = 0")
      case True
      with Cons.prems p False
      have "poll_loop e od (emit (PollSleep (TaskId od)) w) ps = Some (x, od', w')" by simp
      from Cons.IH [OF this] show ?thesis
        by (auto intro: steps_trans [OF steps_emit] simp: collect_events_def)
    next
      case ab: False
      obtain y od1 w1 where f: "onTaskPaused e od (emit (WorkersWait (TaskId od)) w) = (y, od1, w1)"
        by (cases "onTaskPaused e od (emit (WorkersWait (TaskId od)) w)")
      with Cons.prems p False ab have "w' = w1" by (cases y) auto
      with onTaskPaused_steps [OF f] have "steps (collect_events (TaskId od)) (emit (WorkersWait (TaskId od)) w) w'"
        by (auto elim: steps_mono simp: collect_events_def)
      moreover have "steps (collect_events (TaskId od)) w (emit (WorkersWait (TaskId od)) w)"
        by (rule steps_emit) (simp add: collect_events_def pause_events_def)
      ultimately show ?thesis by (rule steps_trans [rotated])
    qed
  qed
qed

lemma handleCollect_steps:
  "handleCollect e od w = Some (x, od', w') \<Longrightarrow> steps (collect_events (TaskId od)) w w'"
proof -
  assume h: "handleCollect e od w = Some (x, od', w')"
  then obtain w1 where p: "poll_loop e od (emit (GoCollect (TaskId od)) w) (polls e) = Some (x, od', w1)"
    and w': "w' = emit (CloseResults (TaskId od)) w1"
    by (auto simp: handleCollect_def split: option.splits)
  have "steps (collect_events (TaskId od)) w (emit (GoCollect (TaskId od)) w)"
    by (rule steps_emit) (simp add: collect_events_def)
  moreover note poll_loop_steps [OF p]
  moreover have "steps (collect_events (TaskId od)) w1 w'"
    unfolding w' by (rule steps_emit) (simp add: collect_events_def)
  ultimately show ?thesis by (blast intro: steps_trans)
qed

lemma Watch_file_steps:
  assumes "Watch_file e od w = Some (x, od', w')"
  shows "steps (watch_events (TaskId od)) w w'"
proof -
  from assms obtain y od1 w1 where h: "handleCollect e od w = Some (y, od1, w1)"
    by (auto simp: Watch_file_def split: option.splits)
  have 1: "steps (watch_events (TaskId od)) w w1"
    using handleCollect_steps [OF h] by (rule steps_mono) (auto simp: watch_events_def)
  have 2: "steps (watch_events (TaskId od)) w1 w'"
    using assms h
    by (auto simp: Watch_file_def Let_def watch_events_def steps_def emit_def
        split: exit.splits option.splits if_splits)
  from 1 2 show ?thesis by (rule steps_trans)
qed

lemma Watch_body_steps:
  assumes "Watch_body e od w = Some (x, od', w')"
  shows "steps (watch_events (TaskId od)) w w'"
proof (cases "openFileErr e")
  case (Some err)
  with assms show ?thesis
    by (auto simp: Watch_body_def Let_def watch_events_def steps_def emit_def)
next
  case None
  with assms obtain w1 where f: "Watch_file e od (emit (OpenFileCall (TaskId od)) w) = Some (x, od', w1)"
    and w': "w' = emit (FileCloseCall (TaskId od)) (emit (FileRemoveCall (TaskId od)) w1)"
    by (auto simp: Watch_body_def Let_def split: option.splits)
  have "steps (watch_events (TaskId od)) w (emit (OpenFileCall (TaskId od)) w)"
    by (rule steps_emit) (simp add: watch_events_def)
  moreover note Watch_file_steps [OF f]
  moreover have "steps (watch_events (TaskId od)) w1 w'"
    unfolding w' by (simp add: watch_events_def steps_def emit_def)
  ultimately show ?thesis by (blast intro: steps_trans)
qed

section \<open>Unregistration\<close>

lemma Unregister_not_watch_event: "UnregisterCall sid \<notin> watch_events sid'"
  by (simp add: watch_events_def collect_events_def finish_events_def pause_events_def)

lemma Watch_unregisters:
  assumes free: "\<not> activeTasksLock w" and W: "Watch e od w = Some (x, od', w')"
  shows "count_list (trace w') (UnregisterCall (TaskId od)) =
           count_list (trace w) (UnregisterCall (TaskId od)) + 1 \<and>
         activeTasks w' = (activeTasks w)(TaskId od := None) \<and> \<not> activeTasksLock w'"
proof -
  from W obtain w1 where b: "Watch_body e od w = Some (x, od', w1)"
    by (auto simp: Watch_def split: option.splits)
  have s: "steps (watch_events (TaskId od)) w w1" by (rule Watch_body_steps [OF b])
  then have free1: "\<not> activeTasksLock w1" using free by (simp add: steps_def)
  from W b have w': "w' = w1\<lparr>activeTasks := (activeTasks w1)(TaskId od := None),
      trace := trace w1 @ [UnregisterCall (TaskId od)], globalWait := globalWait w1 - 1\<rparr>"
    by (simp add: Watch_def unregister_free [OF free1])
  have "count_list (trace w1) (UnregisterCall (TaskId od)) =
        count_list (trace w) (UnregisterCall (TaskId od))"
    by (rule steps_count [OF s Unregister_not_watch_event])
  then show ?thesis using s free1 by (simp add: w' steps_def)
qed

lemma poll_loop_returns:
  "\<exists>p\<in>set ps. fst p = 0 \<or> snd p \<noteq> 0 \<Longrightarrow> \<exists>r. poll_loop e od w ps = Some r"
proof (induction ps arbitrary: w)
  case Nil
  then show ?case by simp
next
  case (Cons p ps)
  obtain ip ab where p: "p = (ip, ab)" by (cases p)
  show ?case
  proof (cases "ip = 0 \<or> ab \<noteq> 0")
    case True
    then show ?thesis
      by (auto simp: p split: prod.splits exit.splits)
  next
    case False
    with Cons.prems p have "\<exists>p\<in>set ps. fst p = 0 \<or> snd p \<noteq> 0" by auto
    from Cons.IH [OF this, of "emit (PollSleep (TaskId od)) w"] False show ?thesis
      by (simp add: p)
  qed
qed

lemma Watch_body_returns:
  assumes "openFileErr e \<noteq> None \<or> (\<exists>p\<in>set (polls e). fst p = 0 \<or> snd p \<noteq> 0)"
  shows "\<exists>r. Watch_body e od w = Some r"
proof (cases "openFileErr e")
  case (Some err)
  then show ?thesis by (simp add: Watch_body_def Let_def)
next
  case None
  with assms have "\<exists>p\<in>set (polls e). fst p = 0 \<or> snd p \<noteq> 0" by simp
  from poll_loop_returns [OF this]
  obtain r where "poll_loop e od (emit (GoCollect (TaskId od)) (emit (OpenFileCall (TaskId od)) w)) (polls e) = Some r"
    by blast
  then show ?thesis
    by (cases r)
       (auto simp: Watch_body_def Watch_file_def handleCollect_def Let_def None
          split: option.splits exit.splits)
qed

lemma Watch_returns:
  assumes free: "\<not> activeTasksLock w"
    and "openFileErr e \<noteq> None \<or> (\<exists>p\<in>set (polls e). fst p = 0 \<or> snd p \<noteq> 0)"
  shows "\<exists>x od' w'. Watch e od w = Some (x, od', w')"
proof -
  from Watch_body_returns [OF assms(2)] obtain x od1 w1 where b: "Watch_body e od w = Some (x, od1, w1)"
    by (metis prod_cases3)
  from Watch_body_steps [OF b] free have "\<not> activeTasksLock w1" by (simp add: steps_def)
  then show ?thesis by (simp add: Watch_def b unregister_free)
qed

lemma scheduleNewTask_start_frame:
  assumes "scheduleNewTask_start e od w = (x, w')"
  shows "activeTasksLock w' = activeTasksLock w \<and> activeTasks w' = activeTasks w \<and>
         count_list (trace w') (UnregisterCall sid) = count_list (trace w) (UnregisterCall sid)"
  using assms
  by (auto simp: scheduleNewTask_start_def Let_def emit_def atomic_AddInt32_def
      split: option.splits)

lemma task_life_watched:
  assumes free: "\<not> activeTasksLock w" and fresh: "activeTasks w sid = None"
    and queue_ok: "removeAllErr e = None" "openQueueErr e = None"
    and ends: "openFileErr e \<noteq> None \<or> (\<exists>p\<in>set (polls e). fst p = 0 \<or> snd p \<noteq> 0)"
  shows "\<exists>x w'. task_life e sid u w = Some (Watched x, w') \<and>
           count_list (trace w') (UnregisterCall sid) =
             count_list (trace w) (UnregisterCall sid) + 1 \<and>
           activeTasks w' = activeTasks w \<and> \<not> activeTasksLock w'"
proof -
  let ?od = "\<lparr>TaskId = sid, BaseUri = u,
     Result = \<lparr>WebsiteId = sid, StartTimeUnix = now e, EndTimeUnix = 0,
               FileCount = 0, ErrorCount = 0, StatusCode = []\<rparr>\<rparr>"
  let ?w1 = "w\<lparr>activeTasks := (activeTasks w)(sid \<mapsto> True), trace := trace w @ [RegisterCall sid]\<rparr>"
  have st: "ScheduleTask e sid u w = Some (Some ?od, ?w1)"
    using free fresh by (simp add: ScheduleTask_def register_free)
  obtain w2 where s: "scheduleNewTask_start e ?od ?w1 = (Return (), w2)"
    using queue_ok by (simp add: scheduleNewTask_start_def Let_def)
  from scheduleNewTask_start_frame [OF s, of sid]
  have f2: "activeTasksLock w2 = activeTasksLock ?w1" "activeTasks w2 = activeTasks ?w1"
    "count_list (trace w2) (UnregisterCall sid) = count_list (trace ?w1) (UnregisterCall sid)"
    by simp_all
  then have free2: "\<not> activeTasksLock w2" using free by simp
  from Watch_returns [OF free2 ends, of ?od]
  obtain x od' w3 where W: "Watch e ?od w2 = Some (x, od', w3)" by blast
  from Watch_unregisters [OF free2 W] f2 fresh
  have "count_list (trace w3) (UnregisterCall sid) = count_list (trace w) (UnregisterCall sid) + 1"
    and "activeTasks w3 = activeTasks w" and "\<not> activeTasksLock w3"
    by (auto simp: fun_upd_idem)
  moreover have "task_life e sid u w = Some (Watched x, w3)"
    by (simp add: task_life_def st s W)
  ultimately show ?thesis by blast
qed

lemma task_life_setup_panic:
  assumes free: "\<not> activeTasksLock w" and fresh: "activeTasks w sid = None"
  shows "(removeAllErr e = Some p \<longrightarrow>
            task_life e sid u w =
              Some (SetupPanic p,
                    w\<lparr>activeTasks := (activeTasks w)(sid \<mapsto> True),
                      trace := trace w @ [RegisterCall sid, LogInfo ''Starting crawler'',
                                          RemoveAllCall sid]\<rparr>)) \<and>
         (removeAllErr e = None \<and> openQueueErr e = Some p \<longrightarrow>
            task_life e sid u w =
              Some (SetupPanic p,
                    w\<lparr>activeTasks := (activeTasks w)(sid \<mapsto> True),
                      trace := trace w @ [RegisterCall sid, LogInfo ''Starting crawler'',
                                          RemoveAllCall sid, OpenQueueCall sid]\<rparr>))"
  using free fresh
  by (simp add: task_life_def ScheduleTask_def register_free scheduleNewTask_start_def Let_def
      emit_def)

text \<open>
  C3, as the code has it. Let a task be registered. If its queue is wiped and opened
  without error, its life ends in \<open>Watch\<close>, and whenever \<open>Watch\<close> ends (the record file
  cannot be opened, or some poll decides: finished, paused, collector error, upload
  failure, or a panic while the queue is closed) \<open>unregister\<close> has been called exactly
  once for it and the registry is as it was before the task. If wiping the queue
  directory fails, or wiping succeeds and opening the queue fails, \<open>scheduleNewTask\<close>
  panics with that error: the trace ends with the failed call, \<open>Watch\<close> is not started,
  \<open>unregister\<close> is not called and the identifier stays registered.
\<close>

theorem task_life_unregisters_once:
  assumes free: "\<not> activeTasksLock w" and fresh: "activeTasks w sid = None"
  shows "(removeAllErr e = None \<and> openQueueErr e = None \<and>
          (openFileErr e \<noteq> None \<or> (\<exists>p\<in>set (polls e). fst p = 0 \<or> snd p \<noteq> 0)) \<longrightarrow>
            (\<exists>x w'. task_life e sid u w = Some (Watched x, w') \<and>
               count_list (trace w') (UnregisterCall sid) =
                 count_list (trace w) (UnregisterCall sid) + 1 \<and>
               activeTasks w' = activeTasks w \<and> \<not> activeTasksLock w')) \<and>
         (\<forall>p. removeAllErr e = Some p \<longrightarrow>
            task_life e sid u w =
              Some (SetupPanic p,
                    w\<lparr>activeTasks := (activeTasks w)(sid \<mapsto> True),
                      trace := trace w @ [RegisterCall sid, LogInfo ''Starting crawler'',
                                          RemoveAllCall sid]\<rparr>)) \<and>
         (\<forall>p. removeAllErr e = None \<and> openQueueErr e = Some p \<longrightarrow>
            task_life e sid u w =
              Some (SetupPanic p,
                    w\<lparr>activeTasks := (activeTasks w)(sid \<mapsto> True),
                      trace := trace w @ [RegisterCall sid, LogInfo ''Starting crawler'',
                                          RemoveAllCall sid, OpenQueueCall sid]\<rparr>))"
  using task_life_watched [OF free fresh, of e u] task_life_setup_panic [OF free fresh, of e _ u]
  by blast

theorem task_life_unregisters_once_witness:
  "\<not> activeTasksLock world0 \<and> activeTasks world0 7 = None \<and>
   removeAllErr env_close_panics = None \<and> openQueueErr env_close_panics = None \<and>
   (0, 1) \<in> set (polls env_close_panics) \<and>
   (\<exists>w'. task_life env_close_panics 7 ''http://a/'' world0 =
           Some (Watched (Panic ''queue: corrupt''), w') \<and>
         count_list (trace w') (UnregisterCall 7) = 1 \<and> activeTasks w' 7 = None) \<and>
   removeAllErr env_open_fails = None \<and>
   openQueueErr env_open_fails = Some ''open queue/7: no space left on device'' \<and>
   task_life env_open_fails 7 ''http://a/'' world0 =
     Some (SetupPanic ''open queue/7: no space left on device'',
           world0\<lparr>activeTasks := [7 \<mapsto> True],
             trace := [RegisterCall 7, LogInfo ''Starting crawler'', RemoveAllCall 7,
                       OpenQueueCall 7]\<rparr>)"
proof -
  have h1: "\<not> activeTasksLock world0" and h2: "activeTasks world0 7 = None"
    by (simp_all add: world0_def)
  have h3: "removeAllErr env_close_panics = None" and h4: "openQueueErr env_close_panics = None"
    by (simp_all add: env_close_panics_def env_ok_def)
  have h5: "(0, 1) \<in> set (polls env_close_panics)"
    by (simp add: env_close_panics_def env_ok_def)
  then have h6: "openFileErr env_close_panics \<noteq> None \<or>
      (\<exists>p\<in>set (polls env_close_panics). fst p = 0 \<or> snd p \<noteq> 0)"
    by force
  have h7: "removeAllErr env_open_fails = None"
    and h8: "openQueueErr env_open_fails = Some ''open queue/7: no space left on device''"
    by (simp_all add: env_open_fails_def env_ok_def)
  from task_life_unregisters_once [OF h1 h2, of env_close_panics "''http://a/''"] h3 h4 h6
  obtain x w' where t: "task_life env_close_panics 7 ''http://a/'' world0 = Some (Watched x, w')"
    and c: "count_list (trace w') (UnregisterCall 7) =
            count_list (trace world0) (UnregisterCall 7) + 1"
    and r: "activeTasks w' = activeTasks world0"
    by blast
  have "task_life env_close_panics 7 ''http://a/'' world0 =
     Some (Watched (Panic ''queue: corrupt''),
           world0\<lparr>globalWait := 0,
             trace := [RegisterCall 7, LogInfo ''Starting crawler'', RemoveAllCall 7,
                       OpenQueueCall 7, SpawnWorkersCall 7, QueueJobCall 7, GoWatch 7,
                       OpenFileCall 7, GoCollect 7, PollSleep 7, QueueCloseCall 7,
                       CloseResults 7, FileRemoveCall 7, FileCloseCall 7,
                       UnregisterCall 7]\<rparr>)"
    by (simp add: task_life_def ScheduleTask_def register_def unregister_def Lock_def Unlock_def
        scheduleNewTask_start_def Watch_def Watch_body_def Watch_file_def handleCollect_def
        onTaskFinished_def onTaskFinished_body_def Let_def emit_def atomic_AddInt32_def
        env_close_panics_def env_ok_def world0_def)
  with t have x: "x = Panic ''queue: corrupt''" by simp
  from c r have a: "count_list (trace w') (UnregisterCall 7) = 1" "activeTasks w' 7 = None"
    by (simp_all add: world0_def)
  from task_life_unregisters_once [OF h1 h2, of env_open_fails "''http://a/''"] h7 h8
  have b: "task_life env_open_fails 7 ''http://a/'' world0 =
     Some (SetupPanic ''open queue/7: no space left on device'',
           world0\<lparr>activeTasks := (activeTasks world0)(7 \<mapsto> True),
             trace := trace world0 @ [RegisterCall 7, LogInfo ''Starting crawler'',
                                      RemoveAllCall 7, OpenQueueCall 7]\<rparr>)"
    by blast
  then have b': "task_life env_open_fails 7 ''http://a/'' world0 =
     Some (SetupPanic ''open queue/7: no space left on device'',
           world0\<lparr>activeTasks := [7 \<mapsto> True],
             trace := [RegisterCall 7, LogInfo ''Starting crawler'', RemoveAllCall 7,
                       OpenQueueCall 7]\<rparr>)"
    by (simp add: world0_def)
  from h1 h2 h3 h4 h5 h7 h8 t x a b' show ?thesis by blast
qed

text \<open>
  Where the queue directory cannot be wiped, the task has been registered,
  \<open>scheduleNewTask\<close> panics before \<open>Watch\<close> is started, and \<open>unregister\<close> is not called:
  the identifier is still in the registry when the process ends.
\<close>

theorem task_life_setup_panic_keeps_registration:
  "task_life env_wipe_fails 7 ''http://a/'' world0 =
     Some (SetupPanic ''unlinkat queue/7: permission denied'',
           world0\<lparr>activeTasks := [7 \<mapsto> True],
             trace := [RegisterCall 7, LogInfo ''Starting crawler'', RemoveAllCall 7]\<rparr>)"
  by (simp add: task_life_def ScheduleTask_def register_def Lock_def Unlock_def
        scheduleNewTask_start_def Let_def emit_def env_wipe_fails_def env_ok_def world0_def)

section \<open>Upload\<close>

lemma Push_not_collect_event: "PushResultCall sid \<notin> collect_events sid'"
  by (simp add: collect_events_def finish_events_def pause_events_def)

lemma Watch_file_push_count:
  assumes "Watch_file e od w = Some (x, od', w')"
  shows "count_list (trace w') (PushResultCall (TaskId od)) =
           count_list (trace w) (PushResultCall (TaskId od)) +
           (if (\<exists>od1 w1. handleCollect e od w = Some (Return True, od1, w1)) \<and>
               collectErr e = None then 1 else 0)"
proof -
  from assms obtain y od1 w1 where h: "handleCollect e od w = Some (y, od1, w1)"
    by (auto simp: Watch_file_def split: option.splits)
  have c: "count_list (trace w1) (PushResultCall (TaskId od)) =
           count_list (trace w) (PushResultCall (TaskId od))"
    by (rule steps_count [OF handleCollect_steps [OF h] Push_not_collect_event])
  show ?thesis
    using assms h c
    by (auto simp: Watch_file_def Let_def emit_def split: exit.splits option.splits if_splits)
qed

lemma Watch_push_count:
  assumes "Watch e od w = Some (x, od', w')"
  shows "count_list (trace w') (PushResultCall (TaskId od)) =
           count_list (trace w) (PushResultCall (TaskId od)) +
           (if openFileErr e = None \<and>
               (\<exists>od1 w1. handleCollect e od (emit (OpenFileCall (TaskId od)) w) =
                            Some (Return True, od1, w1)) \<and>
               collectErr e = None then 1 else 0)"
proof -
  from assms obtain w1 w2 where b: "Watch_body e od w = Some (x, od', w1)"
    and u: "unregister (TaskId od) w1 = Some w2" and w': "w' = w2\<lparr>globalWait := globalWait w2 - 1\<rparr>"
    by (auto simp: Watch_def split: option.splits)
  from u have "\<not> activeTasksLock w1" using unregister_held by fastforce
  with u have t2: "trace w2 = trace w1 @ [UnregisterCall (TaskId od)]"
    by (auto simp: unregister_free)
  show ?thesis
  proof (cases "openFileErr e")
    case (Some err)
    with b t2 w' show ?thesis
      by (auto simp: Watch_body_def Let_def emit_def)
  next
    case None
    with b obtain w0 where f: "Watch_file e od (emit (OpenFileCall (TaskId od)) w) = Some (x, od', w0)"
      and w1: "w1 = emit (FileCloseCall (TaskId od)) (emit (FileRemoveCall (TaskId od)) w0)"
      by (auto simp: Watch_body_def Let_def split: option.splits)
    from Watch_file_push_count [OF f] show ?thesis
      by (simp add: None w' t2 w1 emit_def)
  qed
qed

lemma Watch_upload_fails:
  assumes W: "Watch e od w = Some (x, od', w')"
    and "openFileErr e = None"
    and h: "handleCollect e od (emit (OpenFileCall (TaskId od)) w) = Some (Return True, od1, w1)"
    and "collectErr e = None" and "pushResultErr e = Some err"
  shows "x = Return () \<and> od' = od1 \<and>
         w' = w1\<lparr>activeTasks := (activeTasks w1)(TaskId od := None),
                 globalWait := globalWait w1 - 1,
                 trace := trace w1 @ [PushResultCall (TaskId od),
                                      LogError ''Failed uploading crawl results'',
                                      FileRemoveCall (TaskId od), FileCloseCall (TaskId od),
                                      UnregisterCall (TaskId od)]\<rparr>"
proof -
  let ?w2 = "w1\<lparr>trace := trace w1 @ [PushResultCall (TaskId od),
                                      LogError ''Failed uploading crawl results'',
                                      FileRemoveCall (TaskId od), FileCloseCall (TaskId od)]\<rparr>"
  have b: "Watch_body e od w = Some (Return (), od1, ?w2)"
    using assms(2-) by (simp add: Watch_body_def Watch_file_def Let_def emit_def)
  with W obtain w3 where u: "unregister (TaskId od) ?w2 = Some w3"
    by (auto simp: Watch_def split: option.splits)
  then have "\<not> activeTasksLock ?w2" using unregister_held by fastforce
  with W b show ?thesis
    by (auto simp: Watch_def unregister_free)
qed

text \<open>
  C6. When \<open>Watch\<close> has ended, it has called \<open>PushResult\<close> once if the record file was
  opened, \<open>handleCollect\<close> returned true (natural completion) and the collector sent no
  error, and not at all otherwise. When that upload fails, \<open>Watch\<close> logs the failure,
  removes and closes the record file, unregisters the task and returns: nothing is
  retried, queued again or saved.
\<close>

theorem Watch_uploads_when_finished:
  assumes "Watch e od w = Some (x, od', w')"
  shows "count_list (trace w') (PushResultCall (TaskId od)) =
           count_list (trace w) (PushResultCall (TaskId od)) +
           (if openFileErr e = None \<and>
               (\<exists>od1 w1. handleCollect e od (emit (OpenFileCall (TaskId od)) w) =
                            Some (Return True, od1, w1)) \<and>
               collectErr e = None then 1 else 0) \<and>
         (\<forall>od1 w1 err.
            openFileErr e = None \<and>
            handleCollect e od (emit (OpenFileCall (TaskId od)) w) = Some (Return True, od1, w1) \<and>
            collectErr e = None \<and> pushResultErr e = Some err \<longrightarrow>
            x = Return () \<and> od' = od1 \<and>
            w' = w1\<lparr>activeTasks := (activeTasks w1)(TaskId od := None),
                    globalWait := globalWait w1 - 1,
                    trace := trace w1 @ [PushResultCall (TaskId od),
                                         LogError ''Failed uploading crawl results'',
                                         FileRemoveCall (TaskId od), FileCloseCall (TaskId od),
                                         UnregisterCall (TaskId od)]\<rparr>)"
  using Watch_push_count [OF assms] Watch_upload_fails [OF assms] by blast

theorem Watch_uploads_when_finished_witness:
  "Watch env_upload_fails od_a world_running =
     Some (Return (),
           od_a\<lparr>Result := (Result od_a)\<lparr>EndTimeUnix := 1700000000, StatusCode := ''success''\<rparr>\<rparr>,
           world0\<lparr>trace := [OpenFileCall 7, GoCollect 7, PollSleep 7, QueueCloseCall 7,
                             LogInfo ''Crawler finished'', CloseResults 7, PushResultCall 7,
                             LogError ''Failed uploading crawl results'',
                             FileRemoveCall 7, FileCloseCall 7, UnregisterCall 7]\<rparr>) \<and>
   count_list [OpenFileCall 7, GoCollect 7, PollSleep 7, QueueCloseCall 7,
               LogInfo ''Crawler finished'', CloseResults 7, PushResultCall 7,
               LogError ''Failed uploading crawl results'',
               FileRemoveCall 7, FileCloseCall 7, UnregisterCall 7] (PushResultCall 7) = 1"
proof -
  let ?od1 = "od_a\<lparr>Result := (Result od_a)\<lparr>EndTimeUnix := 1700000000, StatusCode := ''success''\<rparr>\<rparr>"
  let ?w1 = "world0\<lparr>activeTasks := [7 \<mapsto> True], globalWait := 1,
               trace := [OpenFileCall 7, GoCollect 7, PollSleep 7, QueueCloseCall 7,
                             LogInfo ''Crawler finished'', CloseResults 7]\<rparr>"
  have h: "handleCollect env_upload_fails od_a (emit (OpenFileCall (TaskId od_a)) world_running) =
             Some (Return True, ?od1, ?w1)"
    by (simp add: handleCollect_def onTaskFinished_def onTaskFinished_body_def Let_def
        env_upload_fails_def env_ok_def od_a_def world_running_def world0_def emit_def
        atomic_AddInt32_def status_of_def)
  have e: "openFileErr env_upload_fails = None" "collectErr env_upload_fails = None"
    "pushResultErr env_upload_fails = Some ''503 Service Unavailable''"
    by (simp_all add: env_upload_fails_def env_ok_def)
  have "\<not> activeTasksLock world_running"
    and "openFileErr env_upload_fails \<noteq> None \<or>
         (\<exists>p\<in>set (polls env_upload_fails). fst p = 0 \<or> snd p \<noteq> 0)"
    by (simp_all add: world_running_def world0_def env_upload_fails_def env_ok_def)
  from Watch_returns [OF this]
  obtain x od' w' where W: "Watch env_upload_fails od_a world_running = Some (x, od', w')"
    by blast
  from Watch_uploads_when_finished [OF W] h e
  have "x = Return () \<and> od' = ?od1 \<and>
        w' = ?w1\<lparr>activeTasks := (activeTasks ?w1)(TaskId od_a := None),
                    globalWait := globalWait ?w1 - 1,
                    trace := trace ?w1 @ [PushResultCall (TaskId od_a),
                                         LogError ''Failed uploading crawl results'',
                                         FileRemoveCall (TaskId od_a), FileCloseCall (TaskId od_a),
                                         UnregisterCall (TaskId od_a)]\<rparr>"
    by blast
  with W show ?thesis
    by (simp add: od_a_def world0_def)
qed

section \<open>The concurrency ceiling\<close>

text \<open>
  C4. With \<open>config.Tasks = 1\<close> and no task running, \<open>scheduleNewTask\<close> starts a first task
  and returns at once, the counter being 1, which is not greater than 1. The next call
  starts a second task while the first still runs: two tasks run and the counter is 2,
  above the ceiling. Only then does the call stall; and when \<open>sleep\<close> reports cancellation
  it leaves the stall and returns true with the counter still 2.
\<close>

theorem scheduleNewTask_passes_ceiling:
  "scheduleNewTask cfg1 env_ok od_a world0 [] = Some (Return True, world_one) \<and>
   scheduleNewTask_start env_ok od_b world_one = (Return (), world_two) \<and>
   sint (Tasks cfg1) = 1 \<and> sint (numActiveTasks world_two) = 2 \<and>
   scheduleNewTask cfg1 env_ok od_b world_one [] = None \<and>
   scheduleNewTask cfg1 env_ok od_b world_one [(0, False)] =
     Some (Return True, world_two\<lparr>trace := trace world_two @ [StallSleep]\<rparr>)"
  by (simp add: scheduleNewTask_def scheduleNewTask_start_def Let_def emit_def
      atomic_AddInt32_def cfg1_def env_ok_def od_a_def od_b_def world0_def world_one_def
      world_two_def)

text \<open>
  A call whose stall is never cancelled returns only once the counter is at or below the
  ceiling; the increment of the next call then takes it at most one above.
\<close>

theorem stall_loop_bound:
  assumes "stall_loop cfg w obs = Some w'" and "\<forall>ob\<in>set obs. snd ob"
  shows "sint (numActiveTasks w') \<le> sint (Tasks cfg)"
  using assms
proof (induction cfg w obs rule: stall_loop.induct)
  case (1 cfg w obs)
  show ?case
  proof (cases "sint (Tasks cfg) < sint (numActiveTasks w)")
    case False
    with "1.prems" show ?thesis by simp
  next
    case True
    with "1.prems" obtain ended ok rest where obs: "obs = (ended, ok) # rest"
      by (cases obs) auto
    with "1.prems" have ok: ok by simp
    let ?w1 = "emit StallSleep (atomic_AddInt32 (- of_nat ended) w)"
    from "1.prems" True obs ok have "stall_loop cfg ?w1 rest = Some w'"
      by (simp add: Let_def)
    moreover from "1.prems" obs have "\<forall>ob\<in>set rest. snd ob" by simp
    ultimately show ?thesis
      using "1.IH" [OF True obs refl refl _ ] ok by (simp add: Let_def)
  qed
qed

theorem stall_loop_bound_witness:
  "stall_loop cfg1 world_two [(0, True), (1, True)] =
     Some (world_two\<lparr>numActiveTasks := 1, trace := trace world_two @ [StallSleep, StallSleep]\<rparr>) \<and>
   sint (1 :: 32 word) \<le> sint (Tasks cfg1)"
proof -
  have r: "stall_loop cfg1 world_two [(0, True), (1, True)] =
     Some (world_two\<lparr>numActiveTasks := 1, trace := trace world_two @ [StallSleep, StallSleep]\<rparr>)"
    by (simp add: cfg1_def world_two_def world0_def emit_def atomic_AddInt32_def Let_def)
  have "list_all snd [(0 :: nat, True), (1, True)]" by simp
  then have h: "\<forall>ob\<in>set [(0 :: nat, True), (1, True)]. snd ob" by simp
  from stall_loop_bound [OF r h] r show ?thesis by simp
qed

section \<open>The record file\<close>

lemma collect_clean:
  assumes "\<forall>r\<in>set results. marshal (r\<lparr>Path := dec (Path r), Name := dec (Name r)\<rparr>) = Some (js r)"
    and "\<forall>k<2 * length results. wr (writes f + k) = None"
  shows "collect dec marshal wr results f =
           (Return None,
            f\<lparr>content := content f @ concat (map (\<lambda>r. js r @ [0x0A]) results),
              writes := writes f + 2 * length results\<rparr>)"
  using assms
proof (induction results arbitrary: f)
  case Nil
  then show ?case by simp
next
  case (Cons r rs)
  let ?f2 = "f\<lparr>content := content f @ js r @ [0x0A], writes := writes f + 2\<rparr>"
  from Cons.prems(2) have w0: "wr (writes f) = None" and w1: "wr (Suc (writes f)) = None"
    using Cons.prems(2) [rule_format, of 0] Cons.prems(2) [rule_format, of 1] by simp_all
  have "\<forall>k<2 * length rs. wr (writes ?f2 + k) = None"
  proof (intro allI impI)
    fix k assume "k < 2 * length rs"
    with Cons.prems(2) [rule_format, of "k + 2"] show "wr (writes ?f2 + k) = None"
      by (simp add: add.commute add.left_commute)
  qed
  moreover from Cons.prems(1)
  have "\<forall>r\<in>set rs. marshal (r\<lparr>Path := dec (Path r), Name := dec (Name r)\<rparr>) = Some (js r)"
    by simp
  ultimately have "collect dec marshal wr rs ?f2 =
      (Return None, ?f2\<lparr>content := content ?f2 @ concat (map (\<lambda>r. js r @ [0x0A]) rs),
              writes := writes ?f2 + 2 * length rs\<rparr>)"
    by (rule Cons.IH [rotated])
  moreover from Cons.prems(1)
  have "marshal (r\<lparr>Path := dec (Path r), Name := dec (Name r)\<rparr>) = Some (js r)" by simp
  ultimately show ?case
    using w0 w1 by (simp add: Write_def Let_def)
qed

lemma collect_first_error:
  assumes "\<forall>r\<in>set results. marshal (r\<lparr>Path := dec (Path r), Name := dec (Name r)\<rparr>) = Some (js r)"
    and "k < 2 * length results" and "\<forall>j<k. wr (writes f + j) = None"
    and "wr (writes f + k) = Some (err, n)"
  shows "collect dec marshal wr results f =
           (Return (Some err),
            f\<lparr>content := content f @ concat (map (\<lambda>r. js r @ [0x0A]) (take (k div 2) results)) @
                 (if even k then take n (js (results ! (k div 2)))
                  else js (results ! (k div 2)) @ take n [0x0A]),
              writes := writes f + k + 1\<rparr>)"
  using assms
proof (induction results arbitrary: f k)
  case Nil
  then show ?case by simp
next
  case (Cons r rs)
  from Cons.prems(1)
  have m: "marshal (r\<lparr>Path := dec (Path r), Name := dec (Name r)\<rparr>) = Some (js r)" by simp
  consider "k = 0" | "k = 1" | k' where "k = Suc (Suc k')"
    by (metis One_nat_def not0_implies_Suc)
  then show ?case
  proof cases
    case 1
    with Cons.prems(4) m show ?thesis by (simp add: Write_def Let_def)
  next
    case 2
    with Cons.prems(3) have "wr (writes f) = None" by simp
    with Cons.prems(4) m 2 show ?thesis by (simp add: Write_def Let_def)
  next
    case 3
    let ?f2 = "f\<lparr>content := content f @ js r @ [0x0A], writes := writes f + 2\<rparr>"
    from Cons.prems(3) 3 have w0: "wr (writes f) = None" and w1: "wr (Suc (writes f)) = None"
      using Cons.prems(3) [rule_format, of 0] Cons.prems(3) [rule_format, of 1] by simp_all
    have a: "\<forall>r\<in>set rs. marshal (r\<lparr>Path := dec (Path r), Name := dec (Name r)\<rparr>) = Some (js r)"
      using Cons.prems(1) by simp
    have b: "k' < 2 * length rs" using Cons.prems(2) 3 by simp
    have c: "\<forall>j<k'. wr (writes ?f2 + j) = None"
    proof (intro allI impI)
      fix j assume "j < k'"
      with Cons.prems(3) [rule_format, of "j + 2"] 3 show "wr (writes ?f2 + j) = None"
        by (simp add: add.commute add.left_commute)
    qed
    have d: "wr (writes ?f2 + k') = Some (err, n)"
      using Cons.prems(4) 3 by (simp add: add.commute add.left_commute)
    from Cons.IH [OF a b c d] m w0 w1 show ?thesis
      by (simp add: Write_def Let_def 3)
  qed
qed

text \<open>
  C5. Let the channel deliver \<open>results\<close> and then be closed, and let every entry serialise
  (to \<open>js r\<close>, once \<open>Path\<close> and \<open>Name\<close> have been through \<open>decode\<close>). If no write
  fails, \<open>Collect\<close> sends no error and has appended to the record file, in the order
  received, one record per entry: \<open>js r\<close> followed by a newline. If the \<open>k\<close>-th write is
  the first to fail, \<open>Collect\<close> logs and sends the error of that write; the file then holds
  the records of the entries before it and what the failing write wrote.
\<close>

theorem Collect_writes_records:
  assumes "\<forall>r\<in>set results.
             marshal (r\<lparr>Path := decode (Path r), Name := decode (Name r)\<rparr>) =
               Some (js r)"
  shows "((\<forall>k<2 * length results. wr (writes f + k) = None) \<longrightarrow>
            Collect decode marshal wr results f w =
              (Return None,
               f\<lparr>content := content f @ concat (map (\<lambda>r. js r @ [0x0A]) results),
                 writes := writes f + 2 * length results\<rparr>,
               w)) \<and>
         (\<forall>k err n.
            k < 2 * length results \<and> (\<forall>j<k. wr (writes f + j) = None) \<and>
            wr (writes f + k) = Some (err, n) \<longrightarrow>
            Collect decode marshal wr results f w =
              (Return (Some err),
               f\<lparr>content := content f @
                    concat (map (\<lambda>r. js r @ [0x0A]) (take (k div 2) results)) @
                    (if even k then take n (js (results ! (k div 2)))
                     else js (results ! (k div 2)) @ take n [0x0A]),
                 writes := writes f + k + 1\<rparr>,
               emit (LogError ''Failed saving crawl results'') w))"
proof (intro conjI allI impI)
  assume "\<forall>k<2 * length results. wr (writes f + k) = None"
  from collect_clean [OF assms this] show "Collect decode marshal wr results f w =
              (Return None,
               f\<lparr>content := content f @ concat (map (\<lambda>r. js r @ [0x0A]) results),
                 writes := writes f + 2 * length results\<rparr>,
               w)"
    by (simp add: Collect_def)
next
  fix k err n
  assume "k < 2 * length results \<and> (\<forall>j<k. wr (writes f + j) = None) \<and>
            wr (writes f + k) = Some (err, n)"
  then have "collect decode marshal wr results f =
           (Return (Some err),
            f\<lparr>content := content f @ concat (map (\<lambda>r. js r @ [0x0A]) (take (k div 2) results)) @
                 (if even k then take n (js (results ! (k div 2)))
                  else js (results ! (k div 2)) @ take n [0x0A]),
              writes := writes f + k + 1\<rparr>)"
    using collect_first_error [OF assms, of k wr f err n] by blast
  then show "Collect decode marshal wr results f w =
              (Return (Some err),
               f\<lparr>content := content f @
                    concat (map (\<lambda>r. js r @ [0x0A]) (take (k div 2) results)) @
                    (if even k then take n (js (results ! (k div 2)))
                     else js (results ! (k div 2)) @ take n [0x0A]),
                 writes := writes f + k + 1\<rparr>,
               emit (LogError ''Failed saving crawl results'') w)"
    by (simp add: Collect_def)
qed

theorem Collect_writes_records_witness:
  "Collect unescape_ex marshal_ex (\<lambda>k. None) files_ex \<lparr>content = [], writes = 0\<rparr> world0 =
     (Return None,
      \<lparr>content = [0x61, 0x20, 0x62, 0x3A, 0x78, 0x0A, 0x63, 0x3A, 0x79, 0x0A], writes = 4\<rparr>,
      world0) \<and>
   Collect unescape_ex marshal_ex wr_third_fails files_ex \<lparr>content = [], writes = 0\<rparr> world0 =
     (Return (Some ''no space left on device''),
      \<lparr>content = [0x61, 0x20, 0x62, 0x3A, 0x78, 0x0A, 0x63], writes = 3\<rparr>,
      world0\<lparr>trace := [LogError ''Failed saving crawl results'']\<rparr>)"
proof -
  let ?js = "\<lambda>r :: string File. map of_char (unescape_ex (Path r) @ '':'' @ unescape_ex (Name r)) :: byte list"
  have h: "\<forall>r\<in>set files_ex.
             marshal_ex (r\<lparr>Path := unescape_ex (Path r), Name := unescape_ex (Name r)\<rparr>) =
               Some (?js r)"
    by (simp add: files_ex_def marshal_ex_def)
  note t = Collect_writes_records [where decode = unescape_ex and marshal = marshal_ex
      and results = files_ex and js = ?js and f = "\<lparr>content = [], writes = 0\<rparr>" and w = world0,
      OF h]
  have a: "\<forall>k<2 * length files_ex. (\<lambda>k. None :: (string \<times> nat) option) (writes \<lparr>content = [], writes = 0\<rparr> + k) = None"
    by simp
  have b: "(2 :: nat) < 2 * length files_ex \<and>
           (\<forall>j<2. wr_third_fails (writes \<lparr>content = [], writes = 0\<rparr> + j) = None) \<and>
           wr_third_fails (writes \<lparr>content = [], writes = 0\<rparr> + 2) = Some (''no space left on device'', 1)"
    by (simp add: files_ex_def wr_third_fails_def)
  have c1: "content \<lparr>content = [], writes = 0\<rparr> @ concat (map (\<lambda>r. ?js r @ [0x0A]) files_ex) =
              [0x61, 0x20, 0x62, 0x3A, 0x78, 0x0A, 0x63, 0x3A, 0x79, 0x0A]"
    and c2: "content \<lparr>content = [], writes = 0\<rparr> @
             concat (map (\<lambda>r. ?js r @ [0x0A]) (take (2 div 2) files_ex)) @
             (if even (2 :: nat) then take 1 (?js (files_ex ! (2 div 2)))
              else ?js (files_ex ! (2 div 2)) @ take 1 [0x0A]) =
              [0x61, 0x20, 0x62, 0x3A, 0x78, 0x0A, 0x63]"
    and c3: "writes \<lparr>content = [], writes = 0\<rparr> + 2 * length files_ex = 4"
      "writes \<lparr>content = [], writes = 0\<rparr> + 2 + 1 = 3"
    and c4: "emit (LogError ''Failed saving crawl results'') world0 =
             world0\<lparr>trace := [LogError ''Failed saving crawl results'']\<rparr>"
    by (simp_all add: files_ex_def unescape_ex_def emit_def world0_def)
  note 1 = t [of "\<lambda>k. None", THEN conjunct1, rule_format, OF a [rule_format], unfolded c1 c3]
  note 2 = t [of wr_third_fails, THEN conjunct2, rule_format, OF b, unfolded c2 c3 c4]
  from 1 2 show ?thesis by (simp only: osFile.update_convs simp_thms)
qed

section \<open>Bytes, digits and runes\<close>

lemma nibbles_int: "push_bit 4 (drop_bit 4 c) OR (c AND 15) = (c :: int)"
proof -
  have m: "c AND 15 = take_bit 4 c"
    by (simp add: take_bit_eq_mask mask_eq_exp_minus_1)
  have "push_bit 4 (drop_bit 4 c) + take_bit 4 c = push_bit 4 (drop_bit 4 c) OR take_bit 4 c"
    by (rule disjunctive_add) (auto simp: bit_simps)
  then show ?thesis
    by (simp add: m bits_ident)
qed

lemma nibbles_byte:
  "push_bit 4 (word_of_int (drop_bit 4 c) :: byte) OR word_of_int (c AND 15) = byte_of c"
proof -
  have "push_bit 4 (word_of_int (drop_bit 4 c) :: byte) OR word_of_int (c AND 15) =
        word_of_int (push_bit 4 (drop_bit 4 c) OR (c AND 15))"
    by (simp add: of_int_or_eq of_int_push_bit)
  then show ?thesis by (simp add: nibbles_int byte_of_def)
qed

text \<open>The sixteen digits of \<open>hex_at\<close>: each is a hexadecimal digit and \<open>unhex\<close> inverts it.\<close>

lemma hex_at_digits:
  fixes k :: int
  assumes "0 \<le> k" and "k < 16"
  shows "\<exists>h. hex_at k = Some h \<and> ishex h \<and> unhex h = word_of_int k \<and> h < 0x80 \<and> h \<noteq> 0x25"
proof -
  from assms have "k = 0 \<or> k = 1 \<or> k = 2 \<or> k = 3 \<or> k = 4 \<or> k = 5 \<or> k = 6 \<or> k = 7 \<or>
      k = 8 \<or> k = 9 \<or> k = 10 \<or> k = 11 \<or> k = 12 \<or> k = 13 \<or> k = 14 \<or> k = 15"
    by arith
  then show ?thesis
    by (elim disjE) (simp_all add: hex_at_def ishex_def unhex_def)
qed

lemma nibble_range:
  fixes c :: int
  assumes "0 \<le> c" and "c < 256"
  shows "0 \<le> drop_bit 4 c" and "drop_bit 4 c < 16" and "0 \<le> c AND 15" and "c AND 15 < 16"
proof -
  show "0 \<le> drop_bit 4 c" "drop_bit 4 c < 16"
    using assms by (simp_all add: drop_bit_eq_div)
  have "c AND 15 = take_bit 4 c"
    by (simp add: take_bit_eq_mask mask_eq_exp_minus_1)
  then have "c AND 15 = c mod 16" by (simp add: take_bit_eq_mod)
  then show "0 \<le> c AND 15" "c AND 15 < 16" by simp_all
qed

lemma hex_of_byte:
  assumes "0 \<le> c" and "c < 256"
  obtains hi lo where "hex_at (drop_bit 4 c) = Some hi" and "hex_at (c AND 15) = Some lo"
    and "ishex hi" and "ishex lo" and "hi < 0x80" and "lo < 0x80"
    and "push_bit 4 (unhex hi) OR unhex lo = byte_of c"
proof -
  from hex_at_digits [OF nibble_range(1,2) [OF assms]]
  obtain hi where hi: "hex_at (drop_bit 4 c) = Some hi" "ishex hi"
    "unhex hi = word_of_int (drop_bit 4 c)" "hi < 0x80"
    by blast
  from hex_at_digits [OF nibble_range(3,4) [OF assms]]
  obtain lo where lo: "hex_at (c AND 15) = Some lo" "ishex lo"
    "unhex lo = word_of_int (c AND 15)" "lo < 0x80"
    by blast
  have "push_bit 4 (unhex hi) OR unhex lo = byte_of c"
    by (simp add: hi lo nibbles_byte)
  with hi lo that show thesis by blast
qed

lemma uint_byte_of: "0 \<le> c \<Longrightarrow> c < 256 \<Longrightarrow> uint (byte_of c) = c"
  by (simp add: byte_of_def uint_word_of_int take_bit_int_eq_self)

lemma byte_of_uint: "byte_of (uint b) = b"
  by (simp add: byte_of_def)

lemma byte_of_ascii: "0 \<le> c \<Longrightarrow> c < 0x80 \<Longrightarrow> byte_of c < 0x80"
  by (simp add: word_less_def uint_byte_of)

lemma ishex_byte_of:
  assumes "0 \<le> c" and "c < 256"
  shows "ishex (byte_of c) = hexdigit c"
  by (auto simp: ishex_def hexdigit_def word_le_def uint_byte_of [OF assms])

lemma runes_of_bytes_ascii: "\<forall>b\<in>set bs. b < 0x80 \<Longrightarrow> runes_of_bytes bs = map uint bs"
  by (induction bs) simp_all

section \<open>The loops of unescape\<close>

lemma drop_step: "i < length s \<Longrightarrow> drop i s = s ! i # drop (Suc i) s"
  by (simp add: Cons_nth_drop_Suc)

lemma drop_step3:
  "i + 2 < length s \<Longrightarrow> drop i s = s ! i # s ! (i + 1) # s ! (i + 2) # drop (i + 3) s"
  by (simp add: Cons_nth_drop_Suc numeral_3_eq_3)

lemma drop_short: "i < length s \<Longrightarrow> length s \<le> i + 2 \<Longrightarrow>
    (\<exists>c. drop i s = [c]) \<or> (\<exists>c d. drop i s = [c, d])"
proof -
  assume a: "i < length s" "length s \<le> i + 2"
  then have "length (drop i s) = 1 \<or> length (drop i s) = 2" by auto
  then show ?thesis
    by (metis One_nat_def Suc_length_conv length_0_conv numeral_2_eq_2)
qed

lemma not_hex_plus: "\<not> ishex (byte_of 0x2B)" "\<not> ishex (byte_of 0x25)"
  by (simp_all add: ishex_def byte_of_def)

lemma pct_scan_long:
  assumes "pct_scan hx (drop i s) = Inr k" and "i < length s" and "s ! i = 0x25"
  shows "i + 2 < length s"
proof (rule ccontr)
  assume "\<not> i + 2 < length s"
  then have "length s \<le> i + 2" by simp
  from drop_short [OF assms(2) this] assms(3) drop_step [OF assms(2)]
  have "\<exists>bad. pct_scan hx (drop i s) = Inl bad" by auto
  with assms(1) show False by simp
qed

lemma pct_scan_zero: "pct_scan hx s = Inr k \<Longrightarrow> (k = 0) = (0x25 \<notin> set s)"
proof (induction hx s arbitrary: k rule: pct_scan.induct)
  case (1 hx)
  then show ?case by simp
next
  case (2 hx c cs)
  show ?case
  proof (cases "c = 0x25")
    case False
    with 2 show ?thesis by simp
  next
    case True
    with "2.prems" show ?thesis
      by (auto split: list.splits if_splits sum.splits)
  qed
qed

lemma pct_scan_cong:
  "\<forall>c\<in>set s. hx c = hx' c \<Longrightarrow> pct_scan hx s = pct_scan hx' s"
proof (induction hx s rule: pct_scan.induct)
  case (1 hx)
  then show ?case by simp
next
  case (2 hx c cs)
  show ?case
  proof (cases "c = 0x25")
    case False
    with 2 show ?thesis by simp
  next
    case True
    show ?thesis
    proof (cases cs)
      case Nil
      with True show ?thesis by simp
    next
      case (Cons h1 cs1)
      show ?thesis
      proof (cases cs1)
        case Nil
        with True Cons show ?thesis by simp
      next
        case (Cons h2 rest)
        note cs = \<open>cs = h1 # cs1\<close> Cons
        from "2.prems" cs have h: "hx h1 = hx' h1" "hx h2 = hx' h2"
          and r: "\<forall>c\<in>set rest. hx c = hx' c"
          by simp_all
        show ?thesis
        proof (cases "hx h1 \<and> hx h2")
          case False
          with True cs h show ?thesis by auto
        next
          case good: True
          from "2.IH"(1) [OF True cs(1) cs(2) good r] True cs h good show ?thesis
            by simp
        qed
      qed
    qed
  qed
qed

lemma pct_decode_length: "pct_scan hx s = Inr k \<Longrightarrow> length (pct_decode mode s) + 2 * k = length s"
proof (induction hx s arbitrary: k rule: pct_scan.induct)
  case (1 hx)
  then show ?case by simp
next
  case (2 hx c cs)
  show ?case
  proof (cases "c = 0x25")
    case False
    with 2 show ?thesis by simp
  next
    case True
    with "2.prems" obtain h1 h2 rest k' where cs: "cs = h1 # h2 # rest"
      and h: "hx h1 \<and> hx h2" and r: "pct_scan hx rest = Inr k'" and k: "k = Suc k'"
      by (auto split: list.splits if_splits sum.splits)
    from "2.IH"(1) [OF True cs refl h r] show ?thesis
      by (simp add: True cs k)
  qed
qed

lemma unescape_check_scan:
  assumes "mode \<noteq> encodeHost" and "mode \<noteq> encodeZone"
  shows "unescape_check eq s mode i n hp =
     (case pct_scan (\<lambda>h. ishex (byte_of h)) (drop i s) of
        Inl bad \<Rightarrow> Inl (EscapeError bad)
      | Inr k \<Rightarrow> Inr (n + k, if 0x2B \<in> set (drop i s) then mode = encodeQueryComponent else hp))"
  using assms
proof (induction eq s mode i n hp rule: unescape_check.induct)
  case (1 eq s mode i n hp)
  note modes = "1.prems"
  show ?case
  proof (cases "i < length s")
    case False
    then show ?thesis by (simp add: unescape_check.simps [of eq s mode i])
  next
    case True
    note d = drop_step [OF True]
    show ?thesis
    proof (cases "s ! i = 0x25")
      case pct: True
      show ?thesis
      proof (cases "length s \<le> i + 2")
        case short: True
        from drop_short [OF True short] d pct short show ?thesis
          by (auto simp: unescape_check.simps [of eq s mode i] True)
      next
        case False
        then have long: "i + 2 < length s" by simp
        note d3 = drop_step3 [OF long]
        show ?thesis
        proof (cases "ishex (byte_of (s ! (i + 1))) \<and> ishex (byte_of (s ! (i + 2)))")
          case bad: False
          then show ?thesis
            using long pct d3 by (auto simp: unescape_check.simps [of eq s mode i] True)
        next
          case good: True
          have p: "(0x2B \<in> set (drop i s)) = (0x2B \<in> set (drop (i + 3) s))"
            using good pct not_hex_plus by (subst d3) auto
          have "unescape_check eq s mode i n hp = unescape_check eq s mode (i + 3) (n + 1) hp"
            using long pct good modes by (simp add: unescape_check.simps [of eq s mode i] True)
          also have "\<dots> = (case pct_scan (\<lambda>h. ishex (byte_of h)) (drop (i + 3) s) of
              Inl bad \<Rightarrow> Inl (EscapeError bad)
            | Inr k \<Rightarrow> Inr (n + 1 + k, if 0x2B \<in> set (drop (i + 3) s)
                                       then mode = encodeQueryComponent else hp))"
            using "1.IH"(1) True pct long good modes by simp
          finally show ?thesis
            using good pct by (simp only: p) (simp add: d3 split: sum.splits)
        qed
      qed
    next
      case nopct: False
      show ?thesis
      proof (cases "s ! i = 0x2B")
        case plus: True
        have "unescape_check eq s mode i n hp =
              unescape_check eq s mode (i + 1) n (mode = encodeQueryComponent)"
          using plus by (simp add: unescape_check.simps [of eq s mode i] True)
        also have "\<dots> = (case pct_scan (\<lambda>h. ishex (byte_of h)) (drop (i + 1) s) of
              Inl bad \<Rightarrow> Inl (EscapeError bad)
            | Inr k \<Rightarrow> Inr (n + k, if 0x2B \<in> set (drop (i + 1) s)
                                   then mode = encodeQueryComponent
                                   else mode = encodeQueryComponent))"
          using "1.IH"(2) True nopct plus modes by simp
        finally show ?thesis
          using plus by (simp only: d) (simp split: sum.splits)
      next
        case other: False
        have "unescape_check eq s mode i n hp = unescape_check eq s mode (i + 1) n hp"
          using nopct other modes by (simp add: unescape_check.simps [of eq s mode i] True)
        also have "\<dots> = (case pct_scan (\<lambda>h. ishex (byte_of h)) (drop (i + 1) s) of
              Inl bad \<Rightarrow> Inl (EscapeError bad)
            | Inr k \<Rightarrow> Inr (n + k, if 0x2B \<in> set (drop (i + 1) s)
                                   then mode = encodeQueryComponent else hp))"
          using "1.IH"(3) True nopct other modes by simp
        finally show ?thesis
          using nopct other by (simp only: d) (simp split: sum.splits)
      qed
    qed
  qed
qed

lemma unescape_check_error:
  assumes "pct_scan (\<lambda>h. ishex (byte_of h)) (drop i s) = Inl bad"
  shows "\<exists>err. unescape_check eq s mode i n hp = Inl err \<and> err \<noteq> RuntimePanic"
  using assms
proof (induction eq s mode i n hp rule: unescape_check.induct)
  case (1 eq s mode i n hp)
  show ?case
  proof (cases "i < length s")
    case False
    with "1.prems" show ?thesis by simp
  next
    case True
    note d = drop_step [OF True]
    show ?thesis
    proof (cases "s ! i = 0x25")
      case pct: True
      show ?thesis
      proof (cases "length s \<le> i + 2 \<or> \<not> ishex (byte_of (s ! (i + 1))) \<or>
                    \<not> ishex (byte_of (s ! (i + 2)))")
        case True
        with \<open>i < length s\<close> pct show ?thesis
          by (subst unescape_check.simps) simp
      next
        case good: False
        then have long: "i + 2 < length s" by simp
        from "1.prems" pct good
        have r: "pct_scan (\<lambda>h. ishex (byte_of h)) (drop (i + 3) s) = Inl bad"
          by (subst (asm) drop_step3 [OF long]) (auto split: sum.splits)
        show ?thesis
        proof (cases "mode = encodeHost \<and> unhex (byte_of (s ! (i + 1))) < 8 \<and>
                      \<not> eq (take 3 (drop i s)) [0x25, 0x32, 0x35]")
          case True
          with \<open>i < length s\<close> pct good show ?thesis
            by (subst unescape_check.simps) simp
        next
          case host: False
          show ?thesis
          proof (cases "mode = encodeZone \<and>
                    (let v = push_bit 4 (unhex (byte_of (s ! (i + 1)))) OR
                             unhex (byte_of (s ! (i + 2)))
                     in \<not> eq (take 3 (drop i s)) [0x25, 0x32, 0x35] \<and> v \<noteq> 0x20 \<and>
                        shouldEscape (rune_of v) encodeHost)")
            case True
            with \<open>i < length s\<close> pct good host show ?thesis
              by (subst unescape_check.simps) simp
          next
            case zone: False
            from "1.IH"(1) [OF \<open>i < length s\<close> pct good host zone r]
            obtain err where "unescape_check eq s mode (i + 3) (n + 1) hp = Inl err"
              "err \<noteq> RuntimePanic"
              by blast
            moreover have "unescape_check eq s mode i n hp =
                           unescape_check eq s mode (i + 3) (n + 1) hp"
              using \<open>i < length s\<close> pct good host zone
              by (subst unescape_check.simps) (auto simp: Let_def)
            ultimately show ?thesis by simp
          qed
        qed
      qed
    next
      case nopct: False
      from "1.prems" nopct
      have r: "pct_scan (\<lambda>h. ishex (byte_of h)) (drop (i + 1) s) = Inl bad"
        by (subst (asm) d) simp
      show ?thesis
      proof (cases "s ! i = 0x2B")
        case plus: True
        from "1.IH"(2) [OF True nopct plus r]
        obtain err where "unescape_check eq s mode (i + 1) n (mode = encodeQueryComponent) = Inl err"
          "err \<noteq> RuntimePanic"
          by blast
        with True nopct plus show ?thesis
          by (subst unescape_check.simps) simp
      next
        case other: False
        show ?thesis
        proof (cases "(mode = encodeHost \<or> mode = encodeZone) \<and> s ! i < 0x80 \<and>
                      shouldEscape (s ! i) mode")
          case True
          with \<open>i < length s\<close> nopct other show ?thesis
            by (subst unescape_check.simps) simp
        next
          case False
          from "1.IH"(3) [OF True nopct other False r]
          obtain err where "unescape_check eq s mode (i + 1) n hp = Inl err"
            "err \<noteq> RuntimePanic"
            by blast
          with True nopct other False show ?thesis
            by (subst unescape_check.simps) simp
        qed
      qed
    qed
  qed
qed

lemma take_Suc_update: "j < length t \<Longrightarrow> take (Suc j) (t[j := v]) = take j t @ [v]"
  by (simp add: take_Suc_conv_app_nth)

lemma unescape_fill_decode:
  assumes "pct_scan hx (drop i s) = Inr k"
    and "j + length (pct_decode mode (drop i s)) = length t"
  shows "unescape_fill s mode t i j = Inr (take j t @ pct_decode mode (drop i s))"
  using assms
proof (induction s mode t i j arbitrary: k rule: unescape_fill.induct)
  case (1 s mode t i j)
  show ?case
  proof (cases "i < length s")
    case False
    with "1.prems" show ?thesis by (simp add: unescape_fill.simps [of s mode t i])
  next
    case True
    note d = drop_step [OF True]
    show ?thesis
    proof (cases "s ! i = 0x25")
      case pct: True
      note long = pct_scan_long [OF "1.prems"(1) True pct]
      note d3 = drop_step3 [OF long]
      let ?v = "push_bit 4 (unhex (byte_of (s ! (i + 1)))) OR unhex (byte_of (s ! (i + 2)))"
      from "1.prems"(1) pct obtain k' where r: "pct_scan hx (drop (i + 3) s) = Inr k'"
        by (subst (asm) d3) (auto split: if_splits sum.splits)
      have dec: "pct_decode mode (drop i s) = ?v # pct_decode mode (drop (i + 3) s)"
        using pct by (subst d3) simp
      with "1.prems"(2) have j: "j < length t"
        and len: "j + 1 + length (pct_decode mode (drop (i + 3) s)) = length (t[j := ?v])"
        by simp_all
      have "unescape_fill s mode t i j = unescape_fill s mode (t[j := ?v]) (i + 3) (j + 1)"
        using True pct long j by (simp add: unescape_fill.simps [of s mode t i])
      also have "\<dots> = Inr (take (j + 1) (t[j := ?v]) @ pct_decode mode (drop (i + 3) s))"
        using "1.IH"(1) [OF True pct _ r len] long j by simp
      finally show ?thesis
        using j by (simp add: dec take_Suc_update)
    next
      case nopct: False
      from "1.prems"(1) nopct have r: "pct_scan hx (drop (i + 1) s) = Inr k"
        by (subst (asm) d) simp
      show ?thesis
      proof (cases "s ! i = 0x2B")
        case plus: True
        let ?v = "if mode = encodeQueryComponent then 0x20 else 0x2B :: byte"
        have dec: "pct_decode mode (drop i s) = ?v # pct_decode mode (drop (i + 1) s)"
          using plus by (subst d) simp
        with "1.prems"(2) have j: "j < length t"
          and len: "j + 1 + length (pct_decode mode (drop (i + 1) s)) = length (t[j := ?v])"
          by simp_all
        have "unescape_fill s mode t i j = unescape_fill s mode (t[j := ?v]) (i + 1) (j + 1)"
          using True plus j by (simp add: unescape_fill.simps [of s mode t i])
        also have "\<dots> = Inr (take (j + 1) (t[j := ?v]) @ pct_decode mode (drop (i + 1) s))"
          using "1.IH"(2) [OF True nopct plus j r len] by simp
        finally show ?thesis
          using j by (simp add: dec take_Suc_update)
      next
        case other: False
        let ?v = "byte_of (s ! i)"
        have dec: "pct_decode mode (drop i s) = ?v # pct_decode mode (drop (i + 1) s)"
          using nopct other by (subst d) simp
        with "1.prems"(2) have j: "j < length t"
          and len: "j + 1 + length (pct_decode mode (drop (i + 1) s)) = length (t[j := ?v])"
          by simp_all
        have "unescape_fill s mode t i j = unescape_fill s mode (t[j := ?v]) (i + 1) (j + 1)"
          using True nopct other j by (simp add: unescape_fill.simps [of s mode t i])
        also have "\<dots> = Inr (take (j + 1) (t[j := ?v]) @ pct_decode mode (drop (i + 1) s))"
          using "1.IH"(3) [OF True nopct other j r len] by simp
        finally show ?thesis
          using j by (simp add: dec take_Suc_update)
      qed
    qed
  qed
qed

lemma unescape_fails:
  assumes "mode \<noteq> encodeHost" and "mode \<noteq> encodeZone"
    and "pct_scan (\<lambda>h. ishex (byte_of h)) s = Inl bad"
  shows "unescape eq s mode = Inl (EscapeError bad)"
  using assms by (simp add: unescape_def unescape_check_scan)

lemma unescape_error_any_mode:
  assumes "pct_scan (\<lambda>h. ishex (byte_of h)) s = Inl bad"
  shows "\<exists>err. unescape eq s mode = Inl err \<and> err \<noteq> RuntimePanic"
proof -
  from unescape_check_error [of 0 s bad eq mode 0 False] assms
  obtain err where "unescape_check eq s mode 0 0 False = Inl err" "err \<noteq> RuntimePanic"
    by auto
  then show ?thesis by (simp add: unescape_def)
qed

lemma unescape_decodes:
  assumes "mode \<noteq> encodeHost" and "mode \<noteq> encodeZone"
    and "pct_scan (\<lambda>h. ishex (byte_of h)) s = Inr k"
  shows "unescape eq s mode =
           Inr (if 0x25 \<notin> set s \<and> \<not> (0x2B \<in> set s \<and> mode = encodeQueryComponent) then s
                else runes_of_bytes (pct_decode mode s))"
proof -
  note len = pct_decode_length [OF assms(3), of mode]
  have z: "(k = 0) = (0x25 \<notin> set s)" by (rule pct_scan_zero [OF assms(3)])
  have c: "unescape_check eq s mode 0 0 False =
           Inr (k, if 0x2B \<in> set s then mode = encodeQueryComponent else False)"
    using assms by (simp add: unescape_check_scan)
  have f: "unescape_fill s mode (replicate (length s - 2 * k) 0) 0 0 = Inr (pct_decode mode s)"
    using unescape_fill_decode [of _ 0 s k 0 mode "replicate (length s - 2 * k) 0"] assms(3) len
    by simp
  from len have "\<not> length s < 2 * k" by simp
  with c f z show ?thesis
    by (auto simp: unescape_def)
qed

section \<open>The loops of escape\<close>

lemma shouldEscape_space: "shouldEscape 0x20 mode"
  by (cases mode) (simp_all add: shouldEscape_def)

lemma percent_escaped: "shouldEscape 0x25 encodePathSegment"
  by (simp add: shouldEscape_def)

lemma escape_count_eq:
  "escape_count s mode sc hc =
     (sc + length (filter (\<lambda>c. c = 0x20 \<and> mode = encodeQueryComponent) s),
      hc + length (filter (\<lambda>c. shouldEscape c mode \<and> \<not> (c = 0x20 \<and> mode = encodeQueryComponent)) s))"
  by (induction s arbitrary: sc hc) (auto simp: shouldEscape_space)

lemma esc_bytes_length:
  assumes "\<forall>c\<in>set s. 0 \<le> c \<and> c < 256"
  shows "length (esc_bytes mode s) =
         length s + 2 * length (filter (\<lambda>c. shouldEscape c mode \<and>
                                             \<not> (c = 0x20 \<and> mode = encodeQueryComponent)) s)"
  using assms
proof (induction s)
  case Nil
  then show ?case by simp
next
  case (Cons c cs)
  then have "0 \<le> c" "c < 256" by simp_all
  from hex_of_byte [OF this] obtain hi lo
    where "hex_at (drop_bit 4 c) = Some hi" "hex_at (c AND 15) = Some lo"
    by blast
  with Cons show ?case by simp
qed

lemma esc_bytes_plain:
  "\<forall>c\<in>set s. \<not> shouldEscape c mode \<Longrightarrow> esc_bytes mode s = map byte_of s"
  by (induction s) (auto simp: shouldEscape_space)

lemma esc_bytes_ascii:
  assumes "\<forall>c\<in>set s. 0 \<le> c \<and> c < 0x80"
  shows "\<forall>b\<in>set (esc_bytes mode s). b < 0x80"
  using assms
proof (induction s)
  case Nil
  then show ?case by simp
next
  case (Cons c cs)
  then have "0 \<le> c" "c < 256" by simp_all
  from hex_of_byte [OF this] obtain hi lo
    where "hex_at (drop_bit 4 c) = Some hi" "hex_at (c AND 15) = Some lo" "hi < 0x80" "lo < 0x80"
    by blast
  with Cons show ?case by (auto simp: byte_of_ascii)
qed

lemma take_3_update:
  "Suc (Suc j) < length t \<Longrightarrow>
   take (j + 3) (t[j := a, Suc j := b, Suc (Suc j) := c]) = take j t @ [a, b, c]"
proof -
  assume j: "Suc (Suc j) < length t"
  have "take (j + 3) (t[j := a, Suc j := b, Suc (Suc j) := c]) =
        take (Suc (Suc (Suc j))) (t[j := a, Suc j := b, Suc (Suc j) := c])"
    by (simp add: numeral_3_eq_3)
  also have "\<dots> = take j t @ [a, b, c]"
    using j by (simp add: take_Suc_conv_app_nth)
  finally show ?thesis .
qed

lemma escape_fill_bytes:
  assumes "\<forall>c\<in>set cs. 0 \<le> c \<and> c < 256"
    and "j + length (esc_bytes mode cs) = length t"
  shows "escape_fill cs mode t j = Inr (take j t @ esc_bytes mode cs)"
  using assms
proof (induction cs arbitrary: t j)
  case Nil
  then show ?case by simp
next
  case (Cons c cs)
  then have range: "0 \<le> c" "c < 256" and rest: "\<forall>c\<in>set cs. 0 \<le> c \<and> c < 256" by simp_all
  from hex_of_byte [OF range] obtain hi lo
    where h: "hex_at (drop_bit 4 c) = Some hi" "hex_at (c AND 15) = Some lo"
    by blast
  show ?case
  proof (cases "c = 0x20 \<and> mode = encodeQueryComponent")
    case True
    with Cons.prems(2) have j: "j < length t"
      and len: "j + 1 + length (esc_bytes mode cs) = length (t[j := 0x2B])"
      by simp_all
    from Cons.IH [OF rest len] True j show ?thesis
      by (simp add: take_Suc_update)
  next
    case space: False
    show ?thesis
    proof (cases "shouldEscape c mode")
      case True
      with space h Cons.prems(2) have j: "j + 2 < length t"
        and len: "j + 3 + length (esc_bytes mode cs) =
                  length (t[j := 0x25, j + 1 := hi, j + 2 := lo])"
        by auto
      from Cons.IH [OF rest len] True space h j show ?thesis
        by (auto simp: take_3_update)
    next
      case False
      with space Cons.prems(2) have j: "j < length t"
        and len: "j + 1 + length (esc_bytes mode cs) = length (t[j := byte_of c])"
        by auto
      from Cons.IH [OF rest len] False space j show ?thesis
        by (auto simp: take_Suc_update)
    qed
  qed
qed

lemma escape_bytes:
  assumes "\<forall>c\<in>set s. 0 \<le> c \<and> c < 256"
  shows "escape s mode =
           Inr (if \<forall>c\<in>set s. \<not> shouldEscape c mode then s
                else runes_of_bytes (esc_bytes mode s))"
proof -
  let ?sp = "length (filter (\<lambda>c. c = 0x20 \<and> mode = encodeQueryComponent) s)"
  let ?hx = "length (filter (\<lambda>c. shouldEscape c mode \<and>
                                   \<not> (c = 0x20 \<and> mode = encodeQueryComponent)) s)"
  have c: "escape_count s mode 0 0 = (?sp, ?hx)"
    by (simp add: escape_count_eq)
  have none: "(?sp = 0 \<and> ?hx = 0) = (\<forall>c\<in>set s. \<not> shouldEscape c mode)"
    by (auto simp: filter_empty_conv shouldEscape_space)
  have "escape_fill s mode (replicate (length s + 2 * ?hx) 0) 0 = Inr (esc_bytes mode s)"
    using escape_fill_bytes [OF assms, of 0 mode "replicate (length s + 2 * ?hx) 0"]
      esc_bytes_length [OF assms, of mode]
    by simp
  with c none show ?thesis
    by (simp add: escape_def)
qed

section \<open>Escaping and unescaping a path segment\<close>

lemma escape_then_scan:
  assumes "\<forall>c\<in>set s. 0 \<le> c \<and> c < 0x80"
  shows "pct_scan (\<lambda>h. ishex (byte_of h)) (map uint (esc_bytes encodePathSegment s)) =
           Inr (length (filter (\<lambda>c. shouldEscape c encodePathSegment) s)) \<and>
         pct_decode encodePathSegment (map uint (esc_bytes encodePathSegment s)) = map byte_of s"
  using assms
proof (induction s)
  case Nil
  then show ?case by simp
next
  case (Cons c cs)
  then have range: "0 \<le> c" "c < 256" and ascii: "c < 0x80" by simp_all
  from Cons have IH:
    "pct_scan (\<lambda>h. ishex (byte_of h)) (map uint (esc_bytes encodePathSegment cs)) =
       Inr (length (filter (\<lambda>c. shouldEscape c encodePathSegment) cs))"
    "pct_decode encodePathSegment (map uint (esc_bytes encodePathSegment cs)) = map byte_of cs"
    by simp_all
  show ?case
  proof (cases "shouldEscape c encodePathSegment")
    case True
    from hex_of_byte [OF range] obtain hi lo
      where h: "hex_at (drop_bit 4 c) = Some hi" "hex_at (c AND 15) = Some lo"
        "ishex hi" "ishex lo" "push_bit 4 (unhex hi) OR unhex lo = byte_of c"
      by blast
    with True IH show ?thesis
      by (simp add: byte_of_uint)
  next
    case False
    with percent_escaped have "c \<noteq> 0x25" by auto
    moreover have "uint (byte_of c) = c" by (rule uint_byte_of [OF range])
    moreover have "byte_of 0x2B = 0x2B" by (simp add: byte_of_def)
    ultimately show ?thesis
      using False IH by auto
  qed
qed

text \<open>
  C10. For a sequence of ASCII runes (code points 0 to 0x7F), \<open>PathEscape\<close> returns, and
  \<open>PathUnescape\<close> of what it returns is the sequence itself.
\<close>

theorem PathUnescape_PathEscape:
  assumes "\<forall>c\<in>set s. 0 \<le> c \<and> c < 0x80"
  shows "\<exists>t. PathEscape s = Inr t \<and> PathUnescape runes_Equals t = Inr s"
proof -
  let ?e = "esc_bytes encodePathSegment s"
  let ?t = "map uint ?e"
  from assms have range: "\<forall>c\<in>set s. 0 \<le> c \<and> c < 256" by auto
  have id: "map uint (map byte_of s) = s"
    using range by (simp add: map_idI uint_byte_of)
  have "runes_of_bytes ?e = ?t"
    by (rule runes_of_bytes_ascii [OF esc_bytes_ascii [OF assms]])
  moreover have "?t = s" if "\<forall>c\<in>set s. \<not> shouldEscape c encodePathSegment"
    using esc_bytes_plain [OF that] id by simp
  ultimately have esc: "PathEscape s = Inr ?t"
    by (simp add: PathEscape_def escape_bytes [OF range])
  note sc = escape_then_scan [OF assms]
  have plain: "?t = s" if "0x25 \<notin> set ?t"
  proof -
    from pct_scan_zero [OF sc [THEN conjunct1]] that
    have "\<forall>c\<in>set s. \<not> shouldEscape c encodePathSegment"
      by (simp add: filter_empty_conv)
    from esc_bytes_plain [OF this] id show ?thesis by simp
  qed
  have "\<forall>b\<in>set (map byte_of s). b < 0x80"
    using assms by (auto simp: byte_of_ascii)
  then have "runes_of_bytes (map byte_of s) = s"
    using id by (simp add: runes_of_bytes_ascii)
  with plain have "PathUnescape runes_Equals ?t = Inr s"
    using unescape_decodes [OF _ _ sc [THEN conjunct1], of encodePathSegment runes_Equals]
    by (auto simp: PathUnescape_def sc)
  with esc show ?thesis by blast
qed

theorem PathUnescape_PathEscape_witness:
  "PathEscape [0x61, 0x20, 0x2F, 0x25, 0x7E, 0x2B] =
     Inr [0x61, 0x25, 0x32, 0x30, 0x25, 0x32, 0x46, 0x25, 0x32, 0x35, 0x7E, 0x2B] \<and>
   PathUnescape (=) [0x61, 0x25, 0x32, 0x30, 0x25, 0x32, 0x46, 0x25, 0x32, 0x35, 0x7E, 0x2B] =
     Inr [0x61, 0x20, 0x2F, 0x25, 0x7E, 0x2B]"
proof -
  have h: "\<forall>c\<in>set [0x61, 0x20, 0x2F, 0x25, 0x7E, 0x2B :: rune]. 0 \<le> c \<and> c < 0x80" by simp
  have e: "PathEscape [0x61, 0x20, 0x2F, 0x25, 0x7E, 0x2B] =
     Inr [0x61, 0x25, 0x32, 0x30, 0x25, 0x32, 0x46, 0x25, 0x32, 0x35, 0x7E, 0x2B]"
    by code_simp
  from PathUnescape_PathEscape [OF h, of "(=)"] e show ?thesis by simp
qed

section \<open>Malformed escapes\<close>

text \<open>
  \<open>unescape\<close> tests \<open>ishex(byte(s[i+1]))\<close>: the rune is cut to its low eight bits first, so
  a rune passes for a digit when its value modulo 256 is the code of one.
\<close>

lemma byte_of_mod: "byte_of (c mod 256) = byte_of c"
  by (simp add: byte_of_def word_eq_iff_unsigned [where ?'a = int] uint_word_of_int
      take_bit_eq_mod)

lemma ishex_low_byte: "ishex (byte_of c) = hexdigit (c mod 256)"
  using ishex_byte_of [of "c mod 256"] by (simp add: byte_of_mod)

text \<open>
  The byte written for a triple of two hexadecimal digits has the value that the two
  digits spell.
\<close>

lemma unhex_hexval:
  assumes "hexdigit c"
  shows "unhex (byte_of c) = word_of_int (hexval c)" and "0 \<le> hexval c" and "hexval c < 16"
proof -
  from assms have "c = 0x30 \<or> c = 0x31 \<or> c = 0x32 \<or> c = 0x33 \<or> c = 0x34 \<or> c = 0x35 \<or>
      c = 0x36 \<or> c = 0x37 \<or> c = 0x38 \<or> c = 0x39 \<or> c = 0x41 \<or> c = 0x42 \<or> c = 0x43 \<or>
      c = 0x44 \<or> c = 0x45 \<or> c = 0x46 \<or> c = 0x61 \<or> c = 0x62 \<or> c = 0x63 \<or> c = 0x64 \<or>
      c = 0x65 \<or> c = 0x66"
    unfolding hexdigit_def by arith
  then show "unhex (byte_of c) = word_of_int (hexval c)"
    by (elim disjE) (simp_all add: unhex_def byte_of_def hexval_def)
  from assms show "0 \<le> hexval c" and "hexval c < 16"
    by (auto simp: hexdigit_def hexval_def)
qed

lemma nibbles_value:
  fixes a b :: int
  assumes "0 \<le> a" and "a < 16" and "0 \<le> b" and "b < 16"
  shows "uint (push_bit 4 (word_of_int a :: byte) OR word_of_int b) = 16 * a + b"
proof -
  from assms(1,2) have a: "a = 0 \<or> a = 1 \<or> a = 2 \<or> a = 3 \<or> a = 4 \<or> a = 5 \<or> a = 6 \<or>
      a = 7 \<or> a = 8 \<or> a = 9 \<or> a = 10 \<or> a = 11 \<or> a = 12 \<or> a = 13 \<or> a = 14 \<or> a = 15"
    by arith
  from assms(3,4) have b: "b = 0 \<or> b = 1 \<or> b = 2 \<or> b = 3 \<or> b = 4 \<or> b = 5 \<or> b = 6 \<or>
      b = 7 \<or> b = 8 \<or> b = 9 \<or> b = 10 \<or> b = 11 \<or> b = 12 \<or> b = 13 \<or> b = 14 \<or> b = 15"
    by arith
  from a b show ?thesis
    by (elim disjE) simp_all
qed

lemma pct_triple_value:
  assumes "hexdigit h1" and "hexdigit h2"
  shows "uint (push_bit 4 (unhex (byte_of h1)) OR unhex (byte_of h2)) =
           16 * hexval h1 + hexval h2"
  using unhex_hexval [OF assms(1)] unhex_hexval [OF assms(2)]
  by (simp add: nibbles_value)

text \<open>
  For every rune sequence \<open>s\<close>, with the digit test made on the low bytes. If some percent
  sign of \<open>s\<close> is not followed by two runes that pass, \<open>PathUnescape\<close> and \<open>QueryUnescape\<close>
  return no value but the \<open>EscapeError\<close> of the first such place (the percent sign and the
  runes after it, at most two), and \<open>unescape\<close> returns an error in every mode.
  Otherwise \<open>PathUnescape\<close> returns \<open>s\<close> itself when it has no percent sign, and else the
  runes that the bytes of \<open>pct_decode\<close> spell in UTF-8.
\<close>

lemma unescape_low_bytes:
  "(case pct_scan (\<lambda>h. hexdigit (h mod 256)) s of
      Inl bad \<Rightarrow>
        PathUnescape runes_Equals s = Inl (EscapeError bad) \<and>
        QueryUnescape runes_Equals s = Inl (EscapeError bad) \<and>
        (\<exists>err. unescape runes_Equals s mode = Inl err \<and> err \<noteq> RuntimePanic)
    | Inr k \<Rightarrow>
        PathUnescape runes_Equals s =
          Inr (if k = 0 then s else runes_of_bytes (pct_decode encodePathSegment s)))"
proof (cases "pct_scan (\<lambda>h. hexdigit (h mod 256)) s")
  case (Inl bad)
  then have b: "pct_scan (\<lambda>h. ishex (byte_of h)) s = Inl bad"
    by (simp add: ishex_low_byte)
  from unescape_fails [OF _ _ b] unescape_error_any_mode [OF b, of runes_Equals mode]
  show ?thesis
    by (simp add: Inl PathUnescape_def QueryUnescape_def)
next
  case (Inr k)
  then have g: "pct_scan (\<lambda>h. ishex (byte_of h)) s = Inr k"
    by (simp add: ishex_low_byte)
  from unescape_decodes [OF _ _ g, of encodePathSegment runes_Equals] pct_scan_zero [OF g]
  show ?thesis
    by (simp add: Inr PathUnescape_def)
qed

text \<open>
  When every rune of \<open>s\<close> is below 0x100, the test on the low byte is the test for a
  hexadecimal digit: a percent sign that is not followed by two hexadecimal digits is an
  error, and each \<open>%XX\<close> triple becomes the byte \<open>XX\<close>.
\<close>

lemma unescape_percent_triples:
  assumes "\<forall>c\<in>set s. 0 \<le> c \<and> c < 0x100"
  shows "(case pct_scan hexdigit s of
            Inl bad \<Rightarrow>
              PathUnescape runes_Equals s = Inl (EscapeError bad) \<and>
              QueryUnescape runes_Equals s = Inl (EscapeError bad) \<and>
              (\<exists>err. unescape runes_Equals s mode = Inl err \<and> err \<noteq> RuntimePanic)
          | Inr k \<Rightarrow>
              PathUnescape runes_Equals s =
                Inr (if k = 0 then s else runes_of_bytes (pct_decode encodePathSegment s)))"
proof -
  have eq: "pct_scan (\<lambda>h. ishex (byte_of h)) s = pct_scan hexdigit s"
    by (rule pct_scan_cong) (use assms in \<open>simp add: ishex_byte_of\<close>)
  show ?thesis
  proof (cases "pct_scan hexdigit s")
    case (Inl bad)
    with eq have b: "pct_scan (\<lambda>h. ishex (byte_of h)) s = Inl bad" by simp
    from unescape_fails [OF _ _ b] unescape_error_any_mode [OF b, of runes_Equals mode]
    show ?thesis
      by (simp add: Inl PathUnescape_def QueryUnescape_def)
  next
    case (Inr k)
    with eq have g: "pct_scan (\<lambda>h. ishex (byte_of h)) s = Inr k" by simp
    from unescape_decodes [OF _ _ g, of encodePathSegment runes_Equals] pct_scan_zero [OF g]
    show ?thesis
      by (simp add: Inr PathUnescape_def)
  qed
qed

lemma unescape_percent_triples_examples:
  "PathUnescape (=) [0x61, 0x25, 0x32, 0x30, 0x62] = Inr [0x61, 0x20, 0x62] \<and>
   PathUnescape (=) [0x35, 0x30, 0x25] = Inl (EscapeError [0x25]) \<and>
   QueryUnescape (=) [0x35, 0x30, 0x25] = Inl (EscapeError [0x25])"
proof -
  have h1: "\<forall>c\<in>set [0x61, 0x25, 0x32, 0x30, 0x62 :: rune]. 0 \<le> c \<and> c < 0x100"
    and h2: "\<forall>c\<in>set [0x35, 0x30, 0x25 :: rune]. 0 \<le> c \<and> c < 0x100"
    by simp_all
  have s1: "pct_scan hexdigit [0x61, 0x25, 0x32, 0x30, 0x62] = Inr 1"
    and s2: "pct_scan hexdigit [0x35, 0x30, 0x25] = Inl [0x25]"
    by (simp_all add: hexdigit_def)
  have 1: "PathUnescape (=) [0x61, 0x25, 0x32, 0x30, 0x62] = Inr [0x61, 0x20, 0x62]"
    using unescape_percent_triples [OF h1, of "(=)"] unfolding s1
    by (simp add: unhex_def byte_of_def)
  have 2: "PathUnescape (=) [0x35, 0x30, 0x25] = Inl (EscapeError [0x25]) \<and>
           QueryUnescape (=) [0x35, 0x30, 0x25] = Inl (EscapeError [0x25])"
    using unescape_percent_triples [OF h2, of "(=)"] unfolding s2
    by simp
  from 1 2 show ?thesis by simp
qed

text \<open>
  C9. A percent sign that is not followed by two hexadecimal digits is a hard error for
  \<open>PathUnescape\<close> and \<open>QueryUnescape\<close>; their comments say so too (\<open>It returns an error if
  any % is not followed by two hexadecimal digits\<close>). The code does otherwise on a percent
  sign followed by twice the rune \<open>0x141\<close>. This rune is no hexadecimal digit, and
  \<open>pct_scan\<close> reports the place as ill-formed; its low byte \<open>0x41\<close> is the letter A, so
  both runes pass the test of \<open>unescape\<close>. \<open>PathUnescape\<close> and \<open>QueryUnescape\<close> return no
  error: they return the rune \<open>0xFFFD\<close>, which is how the byte \<open>0xAA\<close>, no UTF-8, is read.
\<close>

theorem PathUnescape_accepts_wide_runes:
  "\<not> hexdigit 0x141 \<and>
   pct_scan hexdigit [0x25, 0x141, 0x141] = Inl [0x25, 0x141, 0x141] \<and>
   PathUnescape runes_Equals [0x25, 0x141, 0x141] = Inr [0xFFFD] \<and>
   QueryUnescape runes_Equals [0x25, 0x141, 0x141] = Inr [0xFFFD]"
proof -
  have s: "pct_scan (\<lambda>h. ishex (byte_of h)) [0x25, 0x141, 0x141] = Inr 1"
    by (simp add: ishex_def byte_of_def)
  have d: "runes_of_bytes (pct_decode m [0x25, 0x141, 0x141]) = [0xFFFD]" for m
    by (simp add: unhex_def byte_of_def utf8_first_def)
  from unescape_decodes [OF _ _ s, of encodePathSegment runes_Equals]
    unescape_decodes [OF _ _ s, of encodeQueryComponent runes_Equals] d
  show ?thesis
    by (simp add: PathUnescape_def QueryUnescape_def hexdigit_def)
qed

end
